theory Spec2Isabelle
  imports Main "HOL-Library.Word"
begin

section \<open>The trickle subscriber (trickle/trickle_subscriber.go)\<close>

subsection \<open>Data\<close>

text \<open>
  Go's \<^verbatim>\<open>int\<close> is a 64-bit two's complement integer on the platforms the program is
  built for: addition wraps, comparisons are signed.
\<close>

type_synonym go_int = "64 word"

text \<open>
  \<^verbatim>\<open>http.Header\<close> is a \<^verbatim>\<open>map[string][]string\<close>; \<^verbatim>\<open>Get\<close> returns the first value
  stored under the key, or the empty string when there is none.
\<close>

type_synonym http_Header = "string \<rightharpoonup> string list"

definition Header_Get :: "http_Header \<Rightarrow> string \<Rightarrow> string" where
  "Header_Get h key = (case h key of None \<Rightarrow> [] | Some [] \<Rightarrow> [] | Some (v # _) \<Rightarrow> v)"

record http_Response =
  StatusCode :: go_int
  Header :: http_Header
  Body :: string

text \<open>
  The errors \<^verbatim>\<open>Read\<close> can return: the package variable \<^verbatim>\<open>EOS\<close>, the error made by
  \<^verbatim>\<open>fmt.Errorf("Hit max preconnects")\<close>, and the three failures of \<^verbatim>\<open>connect\<close>.
\<close>

datatype error =
    EOS
  | HitMaxPreconnects
  | NewRequestFailed string
  | GetFailed string
  | StatusNotOK go_int string

record TrickleSubscriber =
  url :: string
  pendingGet :: "http_Response option"
  idx :: go_int
  preconnectErrorCount :: go_int

definition NewTrickleSubscriber :: "string \<Rightarrow> TrickleSubscriber" where
  "NewTrickleSubscriber u =
     \<lparr>url = u, pendingGet = None, idx = - 1, preconnectErrorCount = 0\<rparr>"

subsection \<open>strconv.Atoi\<close>

text \<open>
  \<^verbatim>\<open>strconv.Atoi\<close> accepts an optional sign followed by at least one decimal digit and
  nothing else, and fails when the value does not fit a 64-bit \<^verbatim>\<open>int\<close>.
  \<open>None\<close> stands for a non-nil \<^verbatim>\<open>err\<close>.
\<close>

definition is_digit :: "char \<Rightarrow> bool" where
  "is_digit ch = (48 \<le> (of_char ch :: nat) \<and> (of_char ch :: nat) \<le> 57)"

fun parse_digits :: "string \<Rightarrow> nat \<Rightarrow> nat option" where
  "parse_digits [] n = Some n"
| "parse_digits (ch # s) n =
     (if is_digit ch then parse_digits s (n * 10 + (of_char ch - 48)) else None)"

definition Atoi :: "string \<Rightarrow> go_int option" where
  "Atoi s =
     (case s of
        [] \<Rightarrow> None
      | ch # rest \<Rightarrow>
          (let neg = (ch = CHR ''-'');
               ds = (if ch = CHR ''-'' \<or> ch = CHR ''+'' then rest else s)
           in if ds = [] then None
              else (case parse_digits ds 0 of
                      None \<Rightarrow> None
                    | Some n \<Rightarrow>
                        if neg then (if n \<le> 2 ^ 63 then Some (- word_of_nat n) else None)
                        else (if n < 2 ^ 63 then Some (word_of_nat n) else None))))"

subsection \<open>GetSeq and IsEOS\<close>

definition GetSeq :: "http_Response option \<Rightarrow> go_int" where
  "GetSeq resp =
     (case resp of
        None \<Rightarrow> - 99
      | Some r \<Rightarrow>
          (case Atoi (Header_Get (Header r) ''Lp-Trickle-Seq'') of
             None \<Rightarrow> - 98
           | Some i \<Rightarrow> i))"

definition IsEOS :: "http_Response \<Rightarrow> bool" where
  "IsEOS resp = (Header_Get (Header resp) ''Lp-Trickle-Closed'' \<noteq> [])"

subsection \<open>connect and preconnect\<close>

text \<open>
  The request \<^verbatim>\<open>connect\<close> makes is a GET for the URL
  \<^verbatim>\<open>fmt.Sprintf("%s/%d", c.url, c.idx)\<close>; it is kept as the pair of its two parts.
  Every call of \<^verbatim>\<open>connect\<close> makes one, so a list of requests is a list of attempts to
  connect, and no request means no network traffic.
\<close>

datatype request = GET string go_int

text \<open>
  What the network answers to one request is not decided by the program: it is an input
  of the model. \<open>RequestError\<close> is a failure of \<^verbatim>\<open>http.NewRequestWithContext\<close>,
  \<open>TransportError\<close> a failure of \<^verbatim>\<open>Client.Do\<close>, \<open>Response\<close> a response with its
  status code.
\<close>

datatype do_result = RequestError string | TransportError string | Response http_Response

definition connect_request :: "TrickleSubscriber \<Rightarrow> request" where
  "connect_request c = GET (url c) (idx c)"

definition connect :: "TrickleSubscriber \<Rightarrow> do_result \<Rightarrow> request \<times> (error + http_Response)" where
  "connect c d =
     (connect_request c,
      (case d of
         RequestError e \<Rightarrow> Inl (NewRequestFailed e)
       | TransportError e \<Rightarrow> Inl (GetFailed e)
       | Response resp \<Rightarrow>
           if StatusCode resp \<noteq> 200 then Inl (StatusNotOK (StatusCode resp) (Body resp))
           else Inr resp))"

text \<open>
  \<^verbatim>\<open>preconnect\<close> starts one attempt and waits for its result or for the 20 second
  refresh timeout; on the timeout it cancels the attempt (whose \<^verbatim>\<open>context.Canceled\<close> error
  is dropped) and starts the next one. The attempts it will see are the input: each one
  either times out or completes. The loop has no bound of its own, so a list that runs out
  while every attempt timed out gives \<open>None\<close>: \<^verbatim>\<open>preconnect\<close> has not returned.
  The requests issued along the way are returned with the result.
\<close>

datatype attempt = TimedOut | Completed do_result

fun preconnect ::
  "TrickleSubscriber \<Rightarrow> attempt list \<Rightarrow> request list \<times> (error + http_Response) option" where
  "preconnect c [] = ([], None)"
| "preconnect c (TimedOut # atts) =
     (let (rs, res) = preconnect c atts in (connect_request c # rs, res))"
| "preconnect c (Completed d # atts) =
     (let (rq, res) = connect c d in ([rq], Some res))"

subsection \<open>Read\<close>

text \<open>
  What one call of \<^verbatim>\<open>Read\<close> does that its caller or the network can see: the pair it
  returns (\<open>Inl err\<close> for \<^verbatim>\<open>(nil, err)\<close>, \<open>Inr conn\<close> for \<^verbatim>\<open>(conn, nil)\<close>), the
  requests it issued, and whether it started the goroutine that sets up the next
  connection.
\<close>

record read_effect =
  returned :: "error + http_Response"
  requests :: "request list"
  started :: bool

text \<open>Lines 158 to 161, and again 175 to 178 in the goroutine.\<close>

definition use_next_index :: "http_Response \<Rightarrow> TrickleSubscriber \<Rightarrow> TrickleSubscriber" where
  "use_next_index conn c =
     (let i = GetSeq (Some conn) in if i \<noteq> - 1 then c\<lparr>idx := i + 1\<rparr> else c)"

text \<open>Lines 153 to 186: what \<^verbatim>\<open>Read\<close> does once it holds a connection.\<close>

definition Read_conn ::
  "http_Response \<Rightarrow> request list \<Rightarrow> TrickleSubscriber \<Rightarrow> read_effect \<times> TrickleSubscriber" where
  "Read_conn conn rs c =
     (if IsEOS conn then (\<lparr>returned = Inl EOS, requests = rs, started = False\<rparr>, c)
      else (\<lparr>returned = Inr conn, requests = rs, started = True\<rparr>, use_next_index conn c))"

text \<open>
  The whole of \<^verbatim>\<open>Read\<close>, which runs under the mutex from its first line to its return.
  \<open>None\<close>: the synchronous \<^verbatim>\<open>preconnect\<close> has not returned, so neither has \<^verbatim>\<open>Read\<close>.
\<close>

definition Read ::
  "attempt list \<Rightarrow> TrickleSubscriber \<Rightarrow> (read_effect \<times> TrickleSubscriber) option" where
  "Read atts c =
     (if 5 <s preconnectErrorCount c
      then Some (\<lparr>returned = Inl HitMaxPreconnects, requests = [], started = False\<rparr>, c)
      else (case pendingGet c of
              Some conn \<Rightarrow> Some (Read_conn conn [] c)
            | None \<Rightarrow>
                (case preconnect c atts of
                   (rs, None) \<Rightarrow> None
                 | (rs, Some (Inl err)) \<Rightarrow>
                     Some (\<lparr>returned = Inl err, requests = rs, started = False\<rparr>,
                           c\<lparr>preconnectErrorCount := preconnectErrorCount c + 1\<rparr>)
                 | (rs, Some (Inr p)) \<Rightarrow>
                     Some (Read_conn p rs (c\<lparr>preconnectErrorCount := 0\<rparr>)))))"

text \<open>
  The goroutine started at line 164. It takes the mutex, so it runs as a whole between
  two calls of \<^verbatim>\<open>Read\<close>, before or after any of them. It returns nothing; the model
  keeps the requests it issued and what its \<^verbatim>\<open>preconnect\<close> gave.
\<close>

definition Read_goroutine ::
  "attempt list \<Rightarrow> TrickleSubscriber \<Rightarrow>
     ((request list \<times> (error + http_Response)) \<times> TrickleSubscriber) option" where
  "Read_goroutine atts c =
     (case preconnect c atts of
        (rs, None) \<Rightarrow> None
      | (rs, Some (Inl err)) \<Rightarrow>
          Some ((rs, Inl err), c\<lparr>preconnectErrorCount := preconnectErrorCount c + 1\<rparr>)
      | (rs, Some (Inr nextConn)) \<Rightarrow>
          Some ((rs, Inr nextConn),
                (use_next_index nextConn (c\<lparr>pendingGet := Some nextConn\<rparr>))
                  \<lparr>preconnectErrorCount := 0\<rparr>))"

subsection \<open>A subscriber and its goroutines\<close>

text \<open>
  \<^verbatim>\<open>Read\<close> and the goroutines it starts all lock \<^verbatim>\<open>c.mu\<close> for their whole bodies, so
  an execution is a sequence of whole calls of \<^verbatim>\<open>Read\<close> and whole runs of goroutines.
  Nothing orders a goroutine before the next call of \<^verbatim>\<open>Read\<close>: it runs at any later
  point. The system is the subscriber and the number of goroutines started and not yet
  run; each event brings the attempts its \<^verbatim>\<open>preconnect\<close> would see.
\<close>

datatype event = CallRead "attempt list" | RunGoroutine "attempt list"

datatype observation =
    ReadReturned read_effect
  | GoroutineDone "request list" "error + http_Response"

record system =
  sub :: TrickleSubscriber
  waiting :: nat

fun step :: "event \<Rightarrow> system \<Rightarrow> (observation \<times> system) option" where
  "step (CallRead atts) s =
     (case Read atts (sub s) of
        None \<Rightarrow> None
      | Some (eff, c') \<Rightarrow>
          Some (ReadReturned eff,
                s\<lparr>sub := c', waiting := (if started eff then waiting s + 1 else waiting s)\<rparr>))"
| "step (RunGoroutine atts) s =
     (if waiting s = 0 then None
      else (case Read_goroutine atts (sub s) of
              None \<Rightarrow> None
            | Some ((rs, res), c') \<Rightarrow>
                Some (GoroutineDone rs res, s\<lparr>sub := c', waiting := waiting s - 1\<rparr>)))"

fun run :: "event list \<Rightarrow> system \<Rightarrow> (observation list \<times> system) option" where
  "run [] s = Some ([], s)"
| "run (e # es) s =
     (case step e s of
        None \<Rightarrow> None
      | Some (ob, s') \<Rightarrow>
          (case run es s' of
             None \<Rightarrow> None
           | Some (obs, s'') \<Rightarrow> Some (ob # obs, s'')))"

definition start :: "string \<Rightarrow> system" where
  "start u = \<lparr>sub = NewTrickleSubscriber u, waiting = 0\<rparr>"

text \<open>The requests an event issued, and the connection it handed on, if any.\<close>

fun issued :: "observation \<Rightarrow> request list" where
  "issued (ReadReturned eff) = requests eff"
| "issued (GoroutineDone rs res) = rs"

fun handled :: "observation \<Rightarrow> http_Response option" where
  "handled (ReadReturned eff) = (case returned eff of Inl err \<Rightarrow> None | Inr conn \<Rightarrow> Some conn)"
| "handled (GoroutineDone rs res) = (case res of Inl err \<Rightarrow> None | Inr conn \<Rightarrow> Some conn)"

text \<open>The sequence number a response carries, when its header has one.\<close>

definition seq_of :: "http_Response \<Rightarrow> go_int option" where
  "seq_of conn = Atoi (Header_Get (Header conn) ''Lp-Trickle-Seq'')"

text \<open>
  The last sequence number other than \<open>- 1\<close> among the connections handed on so far,
  starting from \<open>acc\<close>; \<open>None\<close> when there is none, or when a connection handed on
  after it had no sequence number that \<^verbatim>\<open>Atoi\<close> reads.
\<close>

fun last_concrete :: "go_int option \<Rightarrow> observation list \<Rightarrow> go_int option" where
  "last_concrete acc [] = acc"
| "last_concrete acc (ob # obs) =
     last_concrete
       (case handled ob of
          None \<Rightarrow> acc
        | Some conn \<Rightarrow>
            (case seq_of conn of
               None \<Rightarrow> None
             | Some v \<Rightarrow> if v \<noteq> - 1 then Some v else acc))
       obs"

text \<open>Responses used in the examples below.\<close>

definition segment :: "string \<Rightarrow> http_Response" where
  "segment n = \<lparr>StatusCode = 200, Header = [''Lp-Trickle-Seq'' \<mapsto> [n]], Body = ''data''\<rparr>"

definition segment_without_seq :: http_Response where
  "segment_without_seq = \<lparr>StatusCode = 200, Header = Map.empty, Body = ''data''\<rparr>"

definition refused :: "attempt list" where
  "refused = [Completed (TransportError ''connection refused'')]"

definition answer :: "http_Response \<Rightarrow> attempt list" where
  "answer resp = [Completed (Response resp)]"

definition closed_segment :: http_Response where
  "closed_segment =
     \<lparr>StatusCode = 200,
      Header = [''Lp-Trickle-Seq'' \<mapsto> [''8''], ''Lp-Trickle-Closed'' \<mapsto> [''1'']],
      Body = []\<rparr>"

section \<open>The switchable segment reader (media/segment_reader.go)\<close>

subsection \<open>Readers and handlers\<close>

text \<open>
  An \<^verbatim>\<open>io.Reader\<close> is anything with a method \<^verbatim>\<open>Read(p []byte) (n int, err error)\<close>.
  Given the length of \<open>p\<close>, a reader yields the bytes it puts into \<open>p\<close> (their number
  is \<open>n\<close>), the error, and the reader as it is after the call.
\<close>

datatype io_error = EOF | ReadFailed string

codatatype io_Reader =
  Reader (io_Read: "nat \<Rightarrow> (8 word list \<times> io_error option) \<times> io_Reader")

text \<open>\<^verbatim>\<open>EOSReader.Read\<close> returns \<^verbatim>\<open>0, io.EOF\<close> whatever the buffer.\<close>

primcorec EOSReader :: io_Reader where
  "EOSReader = Reader (\<lambda>p. (([], Some EOF), EOSReader))"

text \<open>What successive calls of \<^verbatim>\<open>Read\<close> with buffers of the given lengths return.\<close>

fun reads :: "io_Reader \<Rightarrow> nat list \<Rightarrow> (8 word list \<times> io_error option) list" where
  "reads r [] = []"
| "reads r (p # ps) = (case io_Read r p of (res, r') \<Rightarrow> res # reads r' ps)"

text \<open>
  A \<^verbatim>\<open>SegmentHandler\<close> is a \<^verbatim>\<open>func(reader io.Reader)\<close>. It returns nothing: what it does
  is its effect on the rest of the program, of type \<open>'w\<close>.
\<close>

type_synonym 'w SegmentHandler = "io_Reader \<Rightarrow> 'w \<Rightarrow> 'w"

text \<open>
  \<^verbatim>\<open>io.Copy(io.Discard, reader)\<close> hands the reader to \<^verbatim>\<open>io.Discard\<close>, whose
  \<^verbatim>\<open>ReadFrom\<close> reads into a buffer of 8192 bytes until the reader returns an error, and
  returns the number of bytes read and the error unless it is \<^verbatim>\<open>io.EOF\<close>. It does not
  return on a reader that never returns an error.
\<close>

partial_function (option) Copy_Discard ::
  "io_Reader \<Rightarrow> nat \<Rightarrow> (nat \<times> io_error option) option" where
  "Copy_Discard src n =
     (case io_Read src 8192 of
        ((bs, er), src') \<Rightarrow>
          (case er of
             Some e \<Rightarrow> Some (n + length bs, if e = EOF then None else Some e)
           | None \<Rightarrow> Copy_Discard src' (n + length bs)))"

text \<open>
  \<^verbatim>\<open>NoopReader\<close> starts a goroutine that copies the reader to \<^verbatim>\<open>io.Discard\<close>. Its effect
  is one more goroutine, kept as the reader it drains; the goroutine itself is
  \<open>Copy_Discard reader 0\<close>.
\<close>

definition NoopReader :: "(io_Reader list) SegmentHandler" where
  "NoopReader reader goroutines = goroutines @ [reader]"

subsection \<open>The reader and its lock\<close>

text \<open>
  A \<^verbatim>\<open>sync.RWMutex\<close> is held by any number of readers or by one writer. Its zero value
  is unlocked. (Go also makes a new reader wait while a writer is waiting; leaving that
  out only adds interleavings.)
\<close>

record RWMutex =
  writer :: bool
  readers :: nat

record 'w SwitchableSegmentReader =
  mu :: RWMutex
  reader :: "'w SegmentHandler"

definition NewSwitchableSegmentReader :: "(io_Reader list) SwitchableSegmentReader" where
  "NewSwitchableSegmentReader = \<lparr>mu = \<lparr>writer = False, readers = 0\<rparr>, reader = NoopReader\<rparr>"

text \<open>
  The three methods are straight-line code over the lock and the field \<^verbatim>\<open>reader\<close>; a
  deferred unlock runs last. Each statement is one instruction.
\<close>

datatype 'w instr =
    Lock
  | Unlock
  | RLock
  | RUnlock
  | Assign_reader "'w SegmentHandler"
  | Call_reader io_Reader

definition SwitchReader :: "'w SegmentHandler \<Rightarrow> 'w instr list" where
  "SwitchReader newReader = [Lock, Assign_reader newReader, Unlock]"

definition Read_segment :: "io_Reader \<Rightarrow> 'w instr list" where
  "Read_segment r = [RLock, Call_reader r, RUnlock]"

definition Close :: "'w instr list" where
  "Close = [RLock, Call_reader EOSReader, RUnlock]"

text \<open>
  One instruction on the reader \<open>s\<close> and the rest of the program \<open>w\<close>. \<open>None\<close>: the
  instruction cannot run now, because the lock is held the other way (or, for an unlock,
  is not held, which the Go runtime treats as fatal).
\<close>

fun exec_instr ::
  "'w instr \<Rightarrow> 'w SwitchableSegmentReader \<times> 'w \<Rightarrow> ('w SwitchableSegmentReader \<times> 'w) option" where
  "exec_instr Lock (s, w) =
     (if writer (mu s) \<or> readers (mu s) > 0 then None
      else Some (s\<lparr>mu := (mu s)\<lparr>writer := True\<rparr>\<rparr>, w))"
| "exec_instr Unlock (s, w) =
     (if writer (mu s) then Some (s\<lparr>mu := (mu s)\<lparr>writer := False\<rparr>\<rparr>, w) else None)"
| "exec_instr RLock (s, w) =
     (if writer (mu s) then None
      else Some (s\<lparr>mu := (mu s)\<lparr>readers := readers (mu s) + 1\<rparr>\<rparr>, w))"
| "exec_instr RUnlock (s, w) =
     (if readers (mu s) > 0 then Some (s\<lparr>mu := (mu s)\<lparr>readers := readers (mu s) - 1\<rparr>\<rparr>, w)
      else None)"
| "exec_instr (Assign_reader h) (s, w) = Some (s\<lparr>reader := h\<rparr>, w)"
| "exec_instr (Call_reader r) (s, w) = Some (s, reader s r w)"

text \<open>A method run from its first instruction to its last with nothing in between.\<close>

fun exec_code ::
  "'w instr list \<Rightarrow> 'w SwitchableSegmentReader \<times> 'w \<Rightarrow> ('w SwitchableSegmentReader \<times> 'w) option" where
  "exec_code [] sw = Some sw"
| "exec_code (i # is) sw = (case exec_instr i sw of None \<Rightarrow> None | Some sw' \<Rightarrow> exec_code is sw')"

subsection \<open>Concurrent calls\<close>

text \<open>
  Several goroutines call methods of one reader. Each is the code it has left to run;
  a schedule names, step by step, the goroutine that runs its next instruction.
\<close>

datatype 'w call = Call_SwitchReader "'w SegmentHandler" | Call_Read io_Reader | Call_Close

fun code_of :: "'w call \<Rightarrow> 'w instr list" where
  "code_of (Call_SwitchReader h) = SwitchReader h"
| "code_of (Call_Read r) = Read_segment r"
| "code_of Call_Close = Close"

record 'w program =
  shared :: "'w SwitchableSegmentReader"
  world :: 'w
  threads :: "'w instr list list"

definition calls :: "'w SwitchableSegmentReader \<Rightarrow> 'w \<Rightarrow> 'w call list \<Rightarrow> 'w program" where
  "calls s w cs = \<lparr>shared = s, world = w, threads = map code_of cs\<rparr>"

definition step_thread :: "nat \<Rightarrow> 'w program \<Rightarrow> 'w program option" where
  "step_thread i p =
     (if i < length (threads p) then
        (case threads p ! i of
           [] \<Rightarrow> None
         | ins # rest \<Rightarrow>
             (case exec_instr ins (shared p, world p) of
                None \<Rightarrow> None
              | Some (s', w') \<Rightarrow> Some \<lparr>shared = s', world = w', threads = (threads p)[i := rest]\<rparr>))
      else None)"

fun schedule :: "nat list \<Rightarrow> 'w program \<Rightarrow> 'w program option" where
  "schedule [] p = Some p"
| "schedule (i # is) p = (case step_thread i p of None \<Rightarrow> None | Some p' \<Rightarrow> schedule is p')"

text \<open>
  Where a goroutine stands: inside the section a write lock protects (it has yet to assign
  or to unlock), or inside the section a read lock protects (it has yet to call the handler
  or to unlock).
\<close>

fun in_write_section :: "'w instr list \<Rightarrow> bool" where
  "in_write_section (Assign_reader h # rest) = True"
| "in_write_section (Unlock # rest) = True"
| "in_write_section code = False"

fun in_read_section :: "'w instr list \<Rightarrow> bool" where
  "in_read_section (Call_reader r # rest) = True"
| "in_read_section (RUnlock # rest) = True"
| "in_read_section code = False"

text \<open>The way a method takes the lock: its first lock instruction.\<close>

datatype lock_mode = Shared_mode | Exclusive_mode

fun acquires :: "'w instr list \<Rightarrow> lock_mode option" where
  "acquires [] = None"
| "acquires (Lock # rest) = Some Exclusive_mode"
| "acquires (RLock # rest) = Some Shared_mode"
| "acquires (ins # rest) = acquires rest"

text \<open>
  What holds of the goroutines and the lock together at every moment: each goroutine has
  a suffix of its call's code left, the lock counts the goroutines inside read sections,
  it is write-locked exactly when one goroutine is inside a write section, and then no
  reader holds it.
\<close>

definition consistent :: "'w call list \<Rightarrow> 'w program \<Rightarrow> bool" where
  "consistent cs p \<longleftrightarrow>
     length (threads p) = length cs
     \<and> (\<forall>i<length cs. \<exists>k. threads p ! i = drop k (code_of (cs ! i)))
     \<and> length (filter in_read_section (threads p)) = readers (mu (shared p))
     \<and> length (filter in_write_section (threads p)) = (if writer (mu (shared p)) then 1 else 0)
     \<and> (writer (mu (shared p)) \<longrightarrow> readers (mu (shared p)) = 0)"

section \<open>Facts about the subscriber\<close>

subsection \<open>Arithmetic of Go's int\<close>

lemma sint_succ:
  assumes "sint (x::go_int) < 9223372036854775807"
  shows "sint (x + 1) = sint x + 1"
proof -
  have "- (2 ^ 63) \<le> sint x" using sint_ge [of x] by simp
  moreover have "sint x + 1 < 2 ^ 63" using assms by simp
  ultimately have "signed_take_bit 63 (sint x + 1) = sint x + 1"
    by (intro signed_take_bit_int_eq_self) auto
  then show ?thesis by (simp add: sint_word_ariths)
qed

lemma sint_below_max:
  assumes "(x::go_int) \<noteq> 9223372036854775807"
  shows "sint x < 9223372036854775807"
proof -
  have "sint x < 2 ^ 63" using sint_lt [of x] by simp
  moreover have "sint x \<noteq> 9223372036854775807"
  proof
    assume "sint x = 9223372036854775807"
    then have "word_of_int (sint x) = (word_of_int 9223372036854775807 :: go_int)" by simp
    then show False using assms by simp
  qed
  ultimately show ?thesis by simp
qed

lemma sless_succ: "(x::go_int) \<noteq> 9223372036854775807 \<Longrightarrow> x <s x + 1"
  by (simp add: word_sless_alt sint_succ sint_below_max)

lemma count_succ: "\<not> 5 <s (x::go_int) \<Longrightarrow> sint (x + 1) = sint x + 1"
  by (rule sint_succ) (simp add: word_sless_alt)

lemma small_count: "k \<le> 5 \<Longrightarrow> \<not> 5 <s (of_nat k :: go_int)"
proof -
  assume "k \<le> 5"
  then have "k = 0 \<or> k = 1 \<or> k = 2 \<or> k = 3 \<or> k = 4 \<or> k = 5" by arith
  then show ?thesis by (auto simp: word_sless_alt)
qed

subsection \<open>preconnect\<close>

lemma preconnect_requests: "set (fst (preconnect c atts)) \<subseteq> {connect_request c}"
  by (induction c atts rule: preconnect.induct) (auto simp: connect_def split: prod.splits)

lemma preconnect_requests_nonempty: "preconnect c atts = (rs, Some res) \<Longrightarrow> rs \<noteq> []"
  by (induction c atts arbitrary: rs rule: preconnect.induct)
     (auto simp: connect_def split: prod.splits)

lemma preconnect_result: "snd (preconnect c atts) = snd (preconnect c' atts)"
  by (induction c atts rule: preconnect.induct) (auto simp: connect_def split: prod.splits)

lemma preconnect_error:
  "preconnect c atts = (rs, Some (Inl e)) \<Longrightarrow> e \<noteq> EOS \<and> e \<noteq> HitMaxPreconnects"
  by (induction c atts arbitrary: rs rule: preconnect.induct)
     (auto simp: connect_def split: prod.splits do_result.splits if_splits)

subsection \<open>One call of Read, one run of its goroutine\<close>

lemma Read_hit_max:
  "5 <s preconnectErrorCount c \<Longrightarrow>
   Read atts c = Some (\<lparr>returned = Inl HitMaxPreconnects, requests = [], started = False\<rparr>, c)"
  by (simp add: Read_def)

lemma Read_failure:
  assumes "pendingGet c = None" and "\<not> 5 <s preconnectErrorCount c"
    and "preconnect c atts = (rs, Some (Inl err))"
  shows "Read atts c =
           Some (\<lparr>returned = Inl err, requests = rs, started = False\<rparr>,
                 c\<lparr>preconnectErrorCount := preconnectErrorCount c + 1\<rparr>)"
  using assms by (simp add: Read_def)

lemma Read_cases:
  assumes "Read atts c = Some (eff, c')"
  shows "(5 <s preconnectErrorCount c
            \<and> eff = \<lparr>returned = Inl HitMaxPreconnects, requests = [], started = False\<rparr> \<and> c' = c)
         \<or> (\<not> 5 <s preconnectErrorCount c
            \<and> (\<exists>conn. pendingGet c = Some conn \<and> (eff, c') = Read_conn conn [] c))
         \<or> (\<not> 5 <s preconnectErrorCount c \<and> pendingGet c = None
            \<and> (\<exists>rs err. preconnect c atts = (rs, Some (Inl err))
                  \<and> eff = \<lparr>returned = Inl err, requests = rs, started = False\<rparr>
                  \<and> c' = c\<lparr>preconnectErrorCount := preconnectErrorCount c + 1\<rparr>))
         \<or> (\<not> 5 <s preconnectErrorCount c \<and> pendingGet c = None
            \<and> (\<exists>rs p. preconnect c atts = (rs, Some (Inr p))
                  \<and> (eff, c') = Read_conn p rs (c\<lparr>preconnectErrorCount := 0\<rparr>)))"
  using assms
  by (auto simp: Read_def split: if_splits option.splits sum.splits prod.splits)

lemma Read_stream:
  assumes "Read atts c = Some (eff, c')" and "returned eff = Inr conn"
  shows "started eff \<and> \<not> IsEOS conn
         \<and> (pendingGet c = Some conn \<and> c' = use_next_index conn c
            \<or> pendingGet c = None \<and> c' = use_next_index conn (c\<lparr>preconnectErrorCount := 0\<rparr>))"
proof -
  consider (a) "5 <s preconnectErrorCount c"
      "eff = \<lparr>returned = Inl HitMaxPreconnects, requests = [], started = False\<rparr>"
    | (b) x where "pendingGet c = Some x" "(eff, c') = Read_conn x [] c"
    | (c) rs err where "eff = \<lparr>returned = Inl err, requests = rs, started = False\<rparr>"
    | (d) rs p where "pendingGet c = None"
        "(eff, c') = Read_conn p rs (c\<lparr>preconnectErrorCount := 0\<rparr>)"
    using Read_cases [OF assms(1)] by blast
  then show ?thesis
  proof cases
    case a
    then show ?thesis using assms(2) by simp
  next
    case b
    then show ?thesis using assms(2) by (simp add: Read_conn_def split: if_splits)
  next
    case c
    then show ?thesis using assms(2) by simp
  next
    case d
    then show ?thesis using assms(2) by (simp add: Read_conn_def split: if_splits)
  qed
qed

lemma Read_goroutine_cases:
  assumes "Read_goroutine atts c = Some ((rs, res), c')"
  shows "(\<exists>err. preconnect c atts = (rs, Some (Inl err)) \<and> res = Inl err
            \<and> c' = c\<lparr>preconnectErrorCount := preconnectErrorCount c + 1\<rparr>)
         \<or> (\<exists>nextConn. preconnect c atts = (rs, Some (Inr nextConn)) \<and> res = Inr nextConn
            \<and> c' = (use_next_index nextConn (c\<lparr>pendingGet := Some nextConn\<rparr>))
                       \<lparr>preconnectErrorCount := 0\<rparr>)"
  using assms
  by (auto simp: Read_goroutine_def split: option.splits sum.splits prod.splits)

lemma use_next_index_fields [simp]:
  "url (use_next_index conn c) = url c"
  "pendingGet (use_next_index conn c) = pendingGet c"
  "preconnectErrorCount (use_next_index conn c) = preconnectErrorCount c"
  by (simp_all add: use_next_index_def Let_def)

lemma use_next_index_idx:
  "idx (use_next_index conn c) =
     (case seq_of conn of
        None \<Rightarrow> - 97
      | Some v \<Rightarrow> if v \<noteq> - 1 then v + 1 else idx c)"
  by (simp add: use_next_index_def GetSeq_def seq_of_def split: option.splits)

lemma use_next_index_again:
  "use_next_index conn (use_next_index conn c) = use_next_index conn c"
  by (simp add: use_next_index_def Let_def)

lemma use_next_index_settled:
  assumes "c' = use_next_index conn c0" and "pendingGet c0 = None \<or> pendingGet c0 = Some conn"
  shows "\<forall>X. pendingGet c' = Some X \<longrightarrow> IsEOS X \<or> use_next_index X c' = c'"
proof (intro allI impI)
  fix X
  assume "pendingGet c' = Some X"
  then have "X = conn" using assms by auto
  then have "use_next_index X c' = c'" using assms(1) by (simp add: use_next_index_again)
  then show "IsEOS X \<or> use_next_index X c' = c'" by simp
qed

lemma start_fields [simp]:
  "url (sub (start u)) = u"
  "idx (sub (start u)) = - 1"
  "pendingGet (sub (start u)) = None"
  "preconnectErrorCount (sub (start u)) = 0"
  "waiting (start u) = 0"
  by (simp_all add: start_def NewTrickleSubscriber_def)

text \<open>The definitions that evaluate an execution on given responses.\<close>

lemmas evaluate =
  word_sless_alt Read_def Read_conn_def Read_goroutine_def use_next_index_def GetSeq_def
  IsEOS_def Header_Get_def Atoi_def is_digit_def connect_def connect_request_def
  NewTrickleSubscriber_def start_def segment_def segment_without_seq_def closed_segment_def
  refused_def answer_def seq_of_def

subsection \<open>A failed synchronous preconnect\<close>

text \<open>
  Claim C9. A call of \<^verbatim>\<open>Read\<close> that finds no pending connection and whose synchronous
  \<^verbatim>\<open>preconnect\<close> fails with \<open>err\<close> returns \<^verbatim>\<open>(nil, err)\<close>, adds exactly one to
  \<^verbatim>\<open>preconnectErrorCount\<close> and leaves \<^verbatim>\<open>idx\<close> as it was. The call got as far as
  \<^verbatim>\<open>preconnect\<close>, so the counter did not exceed 5 at its start, and adding one to it
  does not wrap around.
\<close>

theorem Read_failed_preconnect:
  assumes "pendingGet c = None"
    and "\<not> 5 <s preconnectErrorCount c"
    and "preconnect c atts = (rs, Some (Inl err))"
  shows "Read atts c =
           Some (\<lparr>returned = Inl err, requests = rs, started = False\<rparr>,
                 c\<lparr>preconnectErrorCount := preconnectErrorCount c + 1\<rparr>)
         \<and> sint (preconnectErrorCount c + 1) = sint (preconnectErrorCount c) + 1
         \<and> idx (c\<lparr>preconnectErrorCount := preconnectErrorCount c + 1\<rparr>) = idx c"
  using assms by (simp add: Read_failure count_succ)

text \<open>
  On a new subscriber whose first attempt times out and whose second is refused:
  two requests for index \<open>- 1\<close>, the error returned, the counter at 1.
\<close>

theorem Read_failed_preconnect_witness:
  "pendingGet (NewTrickleSubscriber ''u'') = None
   \<and> \<not> 5 <s preconnectErrorCount (NewTrickleSubscriber ''u'')
   \<and> preconnect (NewTrickleSubscriber ''u'') [TimedOut, Completed (TransportError ''refused'')]
       = ([GET ''u'' (- 1), GET ''u'' (- 1)], Some (Inl (GetFailed ''refused'')))
   \<and> Read [TimedOut, Completed (TransportError ''refused'')] (NewTrickleSubscriber ''u'')
       = Some (\<lparr>returned = Inl (GetFailed ''refused''),
                 requests = [GET ''u'' (- 1), GET ''u'' (- 1)], started = False\<rparr>,
               \<lparr>url = ''u'', pendingGet = None, idx = - 1, preconnectErrorCount = 1\<rparr>)"
proof (intro conjI)
  let ?c = "NewTrickleSubscriber ''u''"
  show h1: "pendingGet ?c = None" by (simp add: NewTrickleSubscriber_def)
  show h2: "\<not> 5 <s preconnectErrorCount ?c" by (simp add: NewTrickleSubscriber_def word_sless_alt)
  show h3: "preconnect ?c [TimedOut, Completed (TransportError ''refused'')]
       = ([GET ''u'' (- 1), GET ''u'' (- 1)], Some (Inl (GetFailed ''refused'')))"
    by (simp add: NewTrickleSubscriber_def connect_def connect_request_def)
  show "Read [TimedOut, Completed (TransportError ''refused'')] ?c
       = Some (\<lparr>returned = Inl (GetFailed ''refused''),
                 requests = [GET ''u'' (- 1), GET ''u'' (- 1)], started = False\<rparr>,
               \<lparr>url = ''u'', pendingGet = None, idx = - 1, preconnectErrorCount = 1\<rparr>)"
    using Read_failed_preconnect [OF h1 h2 h3] by (simp add: NewTrickleSubscriber_def)
qed

subsection \<open>A connection that signals the end of the stream\<close>

text \<open>
  Claim C5. Let \<open>conn\<close> have a non-empty \<^verbatim>\<open>Lp-Trickle-Closed\<close> header, and let \<^verbatim>\<open>Read\<close>
  get as far as looking at a connection (the counter does not exceed 5). If \<open>conn\<close> is the
  pending connection, \<^verbatim>\<open>Read\<close> returns \<^verbatim>\<open>(nil, EOS)\<close> and changes no field. If
  \<^verbatim>\<open>Read\<close> has to preconnect and gets \<open>conn\<close>, it returns \<^verbatim>\<open>(nil, EOS)\<close> and the
  subscriber is as the successful \<^verbatim>\<open>preconnect\<close> left it, with the counter reset to 0 at
  line 150. Either way no stream is returned and no goroutine started, and the branch that
  returns \<^verbatim>\<open>EOS\<close> changes nothing itself (third part): the counter is what it was when
  the connection was in hand.
\<close>

theorem Read_closed_connection:
  assumes "\<not> 5 <s preconnectErrorCount c" and "IsEOS conn"
  shows "(pendingGet c = Some conn \<longrightarrow>
            Read atts c = Some (\<lparr>returned = Inl EOS, requests = [], started = False\<rparr>, c))
         \<and> (pendingGet c = None \<and> preconnect c atts = (rs, Some (Inr conn)) \<longrightarrow>
            Read atts c = Some (\<lparr>returned = Inl EOS, requests = rs, started = False\<rparr>,
                                c\<lparr>preconnectErrorCount := 0\<rparr>))
         \<and> Read_conn conn rs c0 = (\<lparr>returned = Inl EOS, requests = rs, started = False\<rparr>, c0)"
  using assms by (simp add: Read_def Read_conn_def)

text \<open>
  Both cases: a new subscriber that connects and gets a closed segment, and a subscriber
  with a closed segment pending and a counter of 3, which stays 3.
\<close>

theorem Read_closed_connection_witness:
  "\<not> 5 <s preconnectErrorCount (NewTrickleSubscriber ''u'')
   \<and> IsEOS closed_segment
   \<and> pendingGet (NewTrickleSubscriber ''u'') = None
   \<and> preconnect (NewTrickleSubscriber ''u'') [Completed (Response closed_segment)]
       = ([GET ''u'' (- 1)], Some (Inr closed_segment))
   \<and> Read [Completed (Response closed_segment)] (NewTrickleSubscriber ''u'')
       = Some (\<lparr>returned = Inl EOS, requests = [GET ''u'' (- 1)], started = False\<rparr>,
               \<lparr>url = ''u'', pendingGet = None, idx = - 1, preconnectErrorCount = 0\<rparr>)
   \<and> \<not> 5 <s preconnectErrorCount
               \<lparr>url = ''u'', pendingGet = Some closed_segment, idx = 9, preconnectErrorCount = 3\<rparr>
   \<and> Read [] \<lparr>url = ''u'', pendingGet = Some closed_segment, idx = 9, preconnectErrorCount = 3\<rparr>
       = Some (\<lparr>returned = Inl EOS, requests = [], started = False\<rparr>,
               \<lparr>url = ''u'', pendingGet = Some closed_segment, idx = 9, preconnectErrorCount = 3\<rparr>)"
proof (intro conjI)
  let ?c = "NewTrickleSubscriber ''u''"
  let ?d = "\<lparr>url = ''u'', pendingGet = Some closed_segment, idx = 9, preconnectErrorCount = 3\<rparr>"
  show h1: "\<not> 5 <s preconnectErrorCount ?c"
    by (simp add: NewTrickleSubscriber_def word_sless_alt)
  show h2: "IsEOS closed_segment"
    by (simp add: IsEOS_def closed_segment_def Header_Get_def)
  show h3: "pendingGet ?c = None" by (simp add: NewTrickleSubscriber_def)
  show h4: "preconnect ?c [Completed (Response closed_segment)]
       = ([GET ''u'' (- 1)], Some (Inr closed_segment))"
    by (simp add: NewTrickleSubscriber_def connect_def connect_request_def closed_segment_def)
  show "Read [Completed (Response closed_segment)] ?c
       = Some (\<lparr>returned = Inl EOS, requests = [GET ''u'' (- 1)], started = False\<rparr>,
               \<lparr>url = ''u'', pendingGet = None, idx = - 1, preconnectErrorCount = 0\<rparr>)"
    using Read_closed_connection [OF h1 h2, of "[Completed (Response closed_segment)]"
        "[GET ''u'' (- 1)]"] h3 h4
    by (simp add: NewTrickleSubscriber_def)
  show h5: "\<not> 5 <s preconnectErrorCount ?d" by (simp add: word_sless_alt)
  show "Read [] ?d = Some (\<lparr>returned = Inl EOS, requests = [], started = False\<rparr>, ?d)"
    using Read_closed_connection [OF h5 h2, of "[]"] by simp
qed

subsection \<open>Calls of Read that fail to connect\<close>

lemma run_hit_max:
  assumes "5 <s preconnectErrorCount (sub s)"
  shows "run (map CallRead later) s =
           Some (replicate (length later)
                   (ReadReturned \<lparr>returned = Inl HitMaxPreconnects, requests = [], started = False\<rparr>),
                 s)"
  using assms by (induction later) (simp_all add: Read_hit_max)

lemma failing_reads:
  assumes "pendingGet (sub s) = None"
    and "preconnectErrorCount (sub s) = of_nat k"
    and "k + length fs \<le> 6"
    and "\<forall>atts\<in>set fs. \<exists>e. snd (preconnect c0 atts) = Some (Inl e)"
  shows "\<exists>obs. run (map CallRead fs) s =
                 Some (obs, s\<lparr>sub := (sub s)\<lparr>preconnectErrorCount := of_nat (k + length fs)\<rparr>\<rparr>)
               \<and> length obs = length fs
               \<and> (\<forall>ob\<in>set obs. \<exists>eff e. ob = ReadReturned eff \<and> returned eff = Inl e
                      \<and> e \<noteq> HitMaxPreconnects \<and> e \<noteq> EOS
                      \<and> requests eff \<noteq> [] \<and> \<not> started eff)"
  using assms
proof (induction fs arbitrary: s k)
  case Nil
  then show ?case by simp
next
  case (Cons atts fs)
  let ?c = "sub s"
  let ?c1 = "?c\<lparr>preconnectErrorCount := preconnectErrorCount ?c + 1\<rparr>"
  let ?s1 = "s\<lparr>sub := ?c1\<rparr>"
  from Cons.prems(4) obtain e where "snd (preconnect c0 atts) = Some (Inl e)" by auto
  then have "snd (preconnect ?c atts) = Some (Inl e)" using preconnect_result [of ?c atts c0] by simp
  then obtain rs where pre: "preconnect ?c atts = (rs, Some (Inl e))"
    by (cases "preconnect ?c atts") auto
  have "k \<le> 5" using Cons.prems(3) by simp
  then have low: "\<not> 5 <s preconnectErrorCount ?c" using Cons.prems(2) small_count by simp
  have rd: "Read atts ?c = Some (\<lparr>returned = Inl e, requests = rs, started = False\<rparr>, ?c1)"
    using Cons.prems(1) low pre by (rule Read_failure)
  have st: "step (CallRead atts) s =
              Some (ReadReturned \<lparr>returned = Inl e, requests = rs, started = False\<rparr>, ?s1)"
    using rd by simp
  have "\<exists>obs. run (map CallRead fs) ?s1 =
                 Some (obs, ?s1\<lparr>sub := (sub ?s1)\<lparr>preconnectErrorCount := of_nat (Suc k + length fs)\<rparr>\<rparr>)
               \<and> length obs = length fs
               \<and> (\<forall>ob\<in>set obs. \<exists>eff e. ob = ReadReturned eff \<and> returned eff = Inl e
                      \<and> e \<noteq> HitMaxPreconnects \<and> e \<noteq> EOS
                      \<and> requests eff \<noteq> [] \<and> \<not> started eff)"
  proof (rule Cons.IH)
    show "pendingGet (sub ?s1) = None" using Cons.prems(1) by simp
    show "preconnectErrorCount (sub ?s1) = of_nat (Suc k)" using Cons.prems(2) by simp
    show "Suc k + length fs \<le> 6" using Cons.prems(3) by simp
    show "\<forall>atts\<in>set fs. \<exists>e. snd (preconnect c0 atts) = Some (Inl e)"
      using Cons.prems(4) by simp
  qed
  then obtain obs where run1: "run (map CallRead fs) ?s1 =
                 Some (obs, ?s1\<lparr>sub := (sub ?s1)\<lparr>preconnectErrorCount := of_nat (Suc k + length fs)\<rparr>\<rparr>)"
    and len: "length obs = length fs"
    and all: "\<forall>ob\<in>set obs. \<exists>eff e. ob = ReadReturned eff \<and> returned eff = Inl e
                      \<and> e \<noteq> HitMaxPreconnects \<and> e \<noteq> EOS
                      \<and> requests eff \<noteq> [] \<and> \<not> started eff"
    by blast
  let ?ob = "ReadReturned \<lparr>returned = Inl e, requests = rs, started = False\<rparr>"
  have fin: "?s1\<lparr>sub := (sub ?s1)\<lparr>preconnectErrorCount := of_nat (Suc k + length fs)\<rparr>\<rparr>
             = s\<lparr>sub := (sub s)\<lparr>preconnectErrorCount := of_nat (k + length (atts # fs))\<rparr>\<rparr>"
    by simp
  have "run (map CallRead (atts # fs)) s =
          Some (?ob # obs, s\<lparr>sub := (sub s)\<lparr>preconnectErrorCount := of_nat (k + length (atts # fs))\<rparr>\<rparr>)"
    using st run1 fin by simp
  moreover have "length (?ob # obs) = length (atts # fs)" using len by simp
  moreover have "e \<noteq> HitMaxPreconnects \<and> e \<noteq> EOS" using pre preconnect_error by blast
  moreover have "rs \<noteq> []" using pre by (rule preconnect_requests_nonempty)
  ultimately show ?case using all by (intro exI [of _ "?ob # obs"]) auto
qed

text \<open>
  Claim C2, as amended. Take a new subscriber whose first six calls of \<^verbatim>\<open>Read\<close> all fail
  to connect. Each of the six calls, the sixth included, makes its request and returns the
  failure of its own \<^verbatim>\<open>preconnect\<close>, which is neither \<^verbatim>\<open>Hit max preconnects\<close> nor
  \<^verbatim>\<open>EOS\<close>; after them the counter is 6. From then on every call of \<^verbatim>\<open>Read\<close>, the
  seventh first, returns \<^verbatim>\<open>Hit max preconnects\<close> with no request and changes nothing.
  The last part is the rule behind it: whenever the counter exceeds 5 at the start of
  \<^verbatim>\<open>Read\<close>, \<^verbatim>\<open>Read\<close> returns that error at once, with no request.
\<close>

theorem six_connect_failures:
  assumes "length fs = 6"
    and "\<forall>atts\<in>set fs. \<exists>e. snd (preconnect (NewTrickleSubscriber u) atts) = Some (Inl e)"
  shows "\<exists>obs s. run (map CallRead fs) (start u) = Some (obs, s)
           \<and> length obs = 6
           \<and> (\<forall>ob\<in>set obs. \<exists>eff e. ob = ReadReturned eff \<and> returned eff = Inl e
                  \<and> e \<noteq> HitMaxPreconnects \<and> e \<noteq> EOS
                  \<and> requests eff \<noteq> [] \<and> \<not> started eff)
           \<and> preconnectErrorCount (sub s) = 6
           \<and> (\<forall>later. run (map CallRead later) s =
                  Some (replicate (length later)
                          (ReadReturned \<lparr>returned = Inl HitMaxPreconnects, requests = [],
                                         started = False\<rparr>), s))
           \<and> (\<forall>c atts. 5 <s preconnectErrorCount c \<longrightarrow>
                  Read atts c =
                    Some (\<lparr>returned = Inl HitMaxPreconnects, requests = [], started = False\<rparr>, c))"
proof -
  let ?s0 = "start u"
  have "\<exists>obs. run (map CallRead fs) ?s0 =
                 Some (obs, ?s0\<lparr>sub := (sub ?s0)\<lparr>preconnectErrorCount := of_nat (0 + length fs)\<rparr>\<rparr>)
               \<and> length obs = length fs
               \<and> (\<forall>ob\<in>set obs. \<exists>eff e. ob = ReadReturned eff \<and> returned eff = Inl e
                      \<and> e \<noteq> HitMaxPreconnects \<and> e \<noteq> EOS
                      \<and> requests eff \<noteq> [] \<and> \<not> started eff)"
  proof (rule failing_reads)
    show "pendingGet (sub ?s0) = None" by (simp add: start_def NewTrickleSubscriber_def)
    show "preconnectErrorCount (sub ?s0) = of_nat 0" by (simp add: start_def NewTrickleSubscriber_def)
    show "0 + length fs \<le> 6" using assms(1) by simp
    show "\<forall>atts\<in>set fs. \<exists>e. snd (preconnect (NewTrickleSubscriber u) atts) = Some (Inl e)"
      using assms(2) .
  qed
  then obtain obs where run1: "run (map CallRead fs) ?s0 =
                 Some (obs, ?s0\<lparr>sub := (sub ?s0)\<lparr>preconnectErrorCount := 6\<rparr>\<rparr>)"
    and len: "length obs = 6"
    and all: "\<forall>ob\<in>set obs. \<exists>eff e. ob = ReadReturned eff \<and> returned eff = Inl e
                      \<and> e \<noteq> HitMaxPreconnects \<and> e \<noteq> EOS
                      \<and> requests eff \<noteq> [] \<and> \<not> started eff"
    using assms(1) by auto
  let ?s = "?s0\<lparr>sub := (sub ?s0)\<lparr>preconnectErrorCount := 6\<rparr>\<rparr>"
  have hm: "5 <s preconnectErrorCount (sub ?s)" by (simp add: word_sless_alt)
  have "preconnectErrorCount (sub ?s) = 6" by simp
  moreover have "\<forall>later. run (map CallRead later) ?s =
                  Some (replicate (length later)
                          (ReadReturned \<lparr>returned = Inl HitMaxPreconnects, requests = [],
                                         started = False\<rparr>), ?s)"
    using run_hit_max [OF hm] by simp
  moreover have "\<forall>c atts. 5 <s preconnectErrorCount c \<longrightarrow>
                  Read atts c =
                    Some (\<lparr>returned = Inl HitMaxPreconnects, requests = [], started = False\<rparr>, c)"
    by (simp add: Read_hit_max)
  ultimately show ?thesis using run1 len all by blast
qed

text \<open>Six refused connections, then a seventh call.\<close>

theorem six_connect_failures_witness:
  "length [refused, refused, refused, refused, refused, refused] = 6
   \<and> (\<exists>obs s. run (map CallRead [refused, refused, refused, refused, refused, refused])
                  (start ''u'') = Some (obs, s)
          \<and> length obs = 6
          \<and> preconnectErrorCount (sub s) = 6
          \<and> run (map CallRead [refused]) s =
              Some ([ReadReturned \<lparr>returned = Inl HitMaxPreconnects, requests = [],
                                     started = False\<rparr>], s))"
proof -
  let ?fs = "[refused, refused, refused, refused, refused, refused]"
  have h1: "length ?fs = 6" by simp
  have h2: "\<forall>atts\<in>set ?fs. \<exists>e. snd (preconnect (NewTrickleSubscriber ''u'') atts) = Some (Inl e)"
    by (simp add: refused_def connect_def)
  from six_connect_failures [OF h1 h2]
  obtain obs s where r: "run (map CallRead ?fs) (start ''u'') = Some (obs, s)"
    and l: "length obs = 6" and n: "preconnectErrorCount (sub s) = 6"
    and a: "\<forall>later. run (map CallRead later) s =
                  Some (replicate (length later)
                          (ReadReturned \<lparr>returned = Inl HitMaxPreconnects, requests = [],
                                         started = False\<rparr>), s)"
    by blast
  have "run (map CallRead [refused]) s =
              Some ([ReadReturned \<lparr>returned = Inl HitMaxPreconnects, requests = [],
                                     started = False\<rparr>], s)"
    using a [rule_format, of "[refused]"] by simp
  then show ?thesis using h1 r l n by blast
qed

text \<open>
  The claim as it was stated fails: the sixth call starts with the counter at 5, which
  does not exceed 5, so it makes its request and returns the refusal. The error
  \<^verbatim>\<open>Hit max preconnects\<close> comes with the seventh call.
\<close>

theorem sixth_Read_returns_connect_failure:
  "run (map CallRead [refused, refused, refused, refused, refused, refused, refused]) (start ''u'')
     = Some ([ReadReturned \<lparr>returned = Inl (GetFailed ''connection refused''),
                            requests = [GET ''u'' (- 1)], started = False\<rparr>,
              ReadReturned \<lparr>returned = Inl (GetFailed ''connection refused''),
                            requests = [GET ''u'' (- 1)], started = False\<rparr>,
              ReadReturned \<lparr>returned = Inl (GetFailed ''connection refused''),
                            requests = [GET ''u'' (- 1)], started = False\<rparr>,
              ReadReturned \<lparr>returned = Inl (GetFailed ''connection refused''),
                            requests = [GET ''u'' (- 1)], started = False\<rparr>,
              ReadReturned \<lparr>returned = Inl (GetFailed ''connection refused''),
                            requests = [GET ''u'' (- 1)], started = False\<rparr>,
              ReadReturned \<lparr>returned = Inl (GetFailed ''connection refused''),
                            requests = [GET ''u'' (- 1)], started = False\<rparr>,
              ReadReturned \<lparr>returned = Inl HitMaxPreconnects, requests = [], started = False\<rparr>],
             \<lparr>sub = \<lparr>url = ''u'', pendingGet = None, idx = - 1, preconnectErrorCount = 6\<rparr>,
                waiting = 0\<rparr>)
   \<and> GetFailed ''connection refused'' \<noteq> HitMaxPreconnects"
  by (simp add: evaluate)

subsection \<open>A response without a sequence number\<close>

text \<open>
  Claim C3 fails on the code. A response with no \<^verbatim>\<open>Lp-Trickle-Seq\<close> header, or with one
  that is not a number, makes \<^verbatim>\<open>GetSeq\<close> return \<open>- 98\<close>. That is not \<open>- 1\<close>, so
  \<^verbatim>\<open>Read\<close>, which succeeds, sets \<^verbatim>\<open>idx\<close> to \<open>- 97\<close>, and the next request is for index
  \<open>- 97\<close>, not for the index \<open>- 1\<close> that \<^verbatim>\<open>NewTrickleSubscriber\<close> uses for the latest
  segment.
\<close>

theorem missing_sequence_number_gives_minus_97:
  "Read (answer segment_without_seq) (NewTrickleSubscriber ''u'')
     = Some (\<lparr>returned = Inr segment_without_seq, requests = [GET ''u'' (- 1)], started = True\<rparr>,
             \<lparr>url = ''u'', pendingGet = None, idx = - 97, preconnectErrorCount = 0\<rparr>)
   \<and> Read (answer (segment ''abc'')) (NewTrickleSubscriber ''u'')
     = Some (\<lparr>returned = Inr (segment ''abc''), requests = [GET ''u'' (- 1)], started = True\<rparr>,
             \<lparr>url = ''u'', pendingGet = None, idx = - 97, preconnectErrorCount = 0\<rparr>)
   \<and> Read_goroutine refused
         \<lparr>url = ''u'', pendingGet = None, idx = - 97, preconnectErrorCount = 0\<rparr>
     = Some (([GET ''u'' (- 97)], Inl (GetFailed ''connection refused'')),
             \<lparr>url = ''u'', pendingGet = None, idx = - 97, preconnectErrorCount = 1\<rparr>)
   \<and> (- 97 :: go_int) \<noteq> - 1"
  by (simp add: evaluate)

subsection \<open>Requests and the tracked index\<close>

lemma Read_url: "Read atts c = Some (eff, c') \<Longrightarrow> url c' = url c"
  by (drule Read_cases) (auto simp: Read_conn_def split: if_splits)

lemma Read_goroutine_url: "Read_goroutine atts c = Some (out, c') \<Longrightarrow> url c' = url c"
  by (cases out) (auto dest!: Read_goroutine_cases)

lemma step_url: "step e s = Some (ob, s') \<Longrightarrow> url (sub s') = url (sub s)"
  by (cases e) (auto split: option.splits if_splits prod.splits dest: Read_url Read_goroutine_url)

lemma run_url: "run es s = Some (obs, s') \<Longrightarrow> url (sub s') = url (sub s)"
proof (induction es arbitrary: s obs)
  case Nil
  then show ?case by simp
next
  case (Cons e es)
  then show ?case
    by (auto split: option.splits prod.splits dest: step_url)
qed

lemma Read_issued:
  assumes "Read atts c = Some (eff, c')"
  shows "set (requests eff) \<subseteq> {connect_request c}"
  using Read_cases [OF assms] preconnect_requests [of c atts]
  by (auto simp: Read_conn_def split: if_splits)

lemma Read_goroutine_issued:
  assumes "Read_goroutine atts c = Some ((rs, res), c')"
  shows "set rs \<subseteq> {connect_request c}"
  using Read_goroutine_cases [OF assms] preconnect_requests [of c atts]
  by auto

lemma step_issued:
  assumes "step e s = Some (ob, s')"
  shows "set (issued ob) \<subseteq> {connect_request (sub s)}"
proof (cases e)
  case (CallRead atts)
  with assms obtain eff c' where "Read atts (sub s) = Some (eff, c')" and "ob = ReadReturned eff"
    by (auto split: option.splits)
  then show ?thesis using Read_issued by simp
next
  case (RunGoroutine atts)
  with assms obtain rs res c' where "Read_goroutine atts (sub s) = Some ((rs, res), c')"
    and "ob = GoroutineDone rs res"
    by (auto split: option.splits if_splits)
  then show ?thesis using Read_goroutine_issued by simp
qed

lemma step_last_concrete:
  assumes "step e s = Some (ob, s')"
    and "\<forall>v0. acc = Some v0 \<longrightarrow> idx (sub s) = v0 + 1"
    and "last_concrete acc [ob] = Some v"
  shows "idx (sub s') = v + 1"
proof (cases e)
  case (CallRead atts)
  with assms(1) obtain eff c' where rd: "Read atts (sub s) = Some (eff, c')"
    and ob: "ob = ReadReturned eff" and s': "sub s' = c'"
    by (auto split: option.splits)
  show ?thesis
    using Read_cases [OF rd] assms(2,3) ob s'
    by (auto simp: Read_conn_def use_next_index_idx split: if_splits option.splits)
next
  case (RunGoroutine atts)
  with assms(1) obtain rs res c' where rd: "Read_goroutine atts (sub s) = Some ((rs, res), c')"
    and ob: "ob = GoroutineDone rs res" and s': "sub s' = c'"
    by (auto split: option.splits if_splits)
  show ?thesis
    using Read_goroutine_cases [OF rd] assms(2,3) ob s'
    by (auto simp: use_next_index_idx split: if_splits option.splits)
qed

lemma run_last_concrete:
  assumes "run es s = Some (obs, s')"
    and "\<forall>v0. acc = Some v0 \<longrightarrow> idx (sub s) = v0 + 1"
    and "last_concrete acc obs = Some v"
  shows "idx (sub s') = v + 1"
  using assms
proof (induction es arbitrary: s obs acc)
  case Nil
  then show ?case by simp
next
  case (Cons e es)
  from Cons.prems(1) obtain ob s1 obs1 where st: "step e s = Some (ob, s1)"
    and rn: "run es s1 = Some (obs1, s')" and obs: "obs = ob # obs1"
    by (auto split: option.splits prod.splits)
  let ?acc1 = "last_concrete acc [ob]"
  have inv: "\<forall>v1. ?acc1 = Some v1 \<longrightarrow> idx (sub s1) = v1 + 1"
    using step_last_concrete [OF st Cons.prems(2)] by blast
  have "last_concrete ?acc1 obs1 = Some v" using Cons.prems(3) obs by simp
  with rn inv show ?case by (rule Cons.IH)
qed

text \<open>
  Claim C4, as amended. Take any execution from a new subscriber: calls of \<^verbatim>\<open>Read\<close>
  and runs of their goroutines in any order, whatever the network answers. If \<open>v\<close> is the
  last sequence number other than \<open>- 1\<close> carried by a connection handed on so far, and
  every connection handed on since had a sequence number that \<^verbatim>\<open>Atoi\<close> reads, then
  \<^verbatim>\<open>idx\<close> is \<open>v + 1\<close> and every request of the next event is for index \<open>v + 1\<close>. That
  index is greater than \<open>v\<close> unless \<open>v\<close> is the largest \<^verbatim>\<open>int\<close>.
\<close>

theorem requested_index_follows_sequence:
  assumes "run es (start u) = Some (obs, s)"
    and "last_concrete None obs = Some v"
    and "step e s = Some (ob, s')"
  shows "idx (sub s) = v + 1
         \<and> set (issued ob) \<subseteq> {GET u (v + 1)}
         \<and> (v \<noteq> 9223372036854775807 \<longrightarrow> v <s v + 1)"
proof -
  have i: "idx (sub s) = v + 1"
    using assms(1) _ assms(2) by (rule run_last_concrete) simp
  have "url (sub s) = u" using run_url [OF assms(1)] by simp
  then have "connect_request (sub s) = GET u (v + 1)" using i by (simp add: connect_request_def)
  then have "set (issued ob) \<subseteq> {GET u (v + 1)}" using step_issued [OF assms(3)] by simp
  then show ?thesis using i sless_succ by blast
qed

text \<open>After a segment numbered 7, the goroutine asks for index 8.\<close>

theorem requested_index_follows_sequence_witness:
  "run [CallRead (answer (segment ''7''))] (start ''u'')
     = Some ([ReadReturned \<lparr>returned = Inr (segment ''7''), requests = [GET ''u'' (- 1)],
                            started = True\<rparr>],
             \<lparr>sub = \<lparr>url = ''u'', pendingGet = None, idx = 8, preconnectErrorCount = 0\<rparr>,
                waiting = 1\<rparr>)
   \<and> last_concrete None
         [ReadReturned \<lparr>returned = Inr (segment ''7''), requests = [GET ''u'' (- 1)],
                        started = True\<rparr>] = Some 7
   \<and> step (RunGoroutine (answer (segment ''8'')))
         \<lparr>sub = \<lparr>url = ''u'', pendingGet = None, idx = 8, preconnectErrorCount = 0\<rparr>,
            waiting = 1\<rparr>
     = Some (GoroutineDone [GET ''u'' 8] (Inr (segment ''8'')),
             \<lparr>sub = \<lparr>url = ''u'', pendingGet = Some (segment ''8''), idx = 9,
                      preconnectErrorCount = 0\<rparr>,
                waiting = 0\<rparr>)
   \<and> set (issued (GoroutineDone [GET ''u'' 8] (Inr (segment ''8'')))) \<subseteq> {GET ''u'' (7 + 1)}
   \<and> (7 :: go_int) <s 7 + 1"
proof (intro conjI)
  let ?ob = "ReadReturned \<lparr>returned = Inr (segment ''7''), requests = [GET ''u'' (- 1)],
                           started = True\<rparr>"
  let ?s = "\<lparr>sub = \<lparr>url = ''u'', pendingGet = None, idx = 8, preconnectErrorCount = 0\<rparr>,
              waiting = 1\<rparr>"
  let ?s' = "\<lparr>sub = \<lparr>url = ''u'', pendingGet = Some (segment ''8''), idx = 9,
                      preconnectErrorCount = 0\<rparr>,
               waiting = 0\<rparr>"
  show h1: "run [CallRead (answer (segment ''7''))] (start ''u'') = Some ([?ob], ?s)"
    by (simp add: evaluate)
  show h2: "last_concrete None [?ob] = Some 7"
    by (simp add: evaluate)
  show h3: "step (RunGoroutine (answer (segment ''8''))) ?s
              = Some (GoroutineDone [GET ''u'' 8] (Inr (segment ''8'')), ?s')"
    by (simp add: evaluate)
  show "set (issued (GoroutineDone [GET ''u'' 8] (Inr (segment ''8'')))) \<subseteq> {GET ''u'' (7 + 1)}"
    using requested_index_follows_sequence [OF h1 h2 h3] by blast
  show "(7 :: go_int) <s 7 + 1"
    using requested_index_follows_sequence [OF h1 h2 h3] by simp
qed

text \<open>
  The claim as it was stated fails in two ways. After a segment numbered 7, a response
  without a sequence number sets \<^verbatim>\<open>idx\<close> to \<open>- 97\<close>, and the next request is for index
  \<open>- 97\<close>, which is not greater than 7. After a segment numbered 9223372036854775807,
  \<^verbatim>\<open>idx + 1\<close> wraps around and the next request is for index \<open>- 9223372036854775808\<close>.
\<close>

theorem requested_index_not_greater:
  "run [CallRead (answer (segment ''7'')),
        RunGoroutine (answer segment_without_seq),
        CallRead [],
        RunGoroutine (answer (segment ''9''))] (start ''u'')
     = Some ([ReadReturned \<lparr>returned = Inr (segment ''7''), requests = [GET ''u'' (- 1)],
                            started = True\<rparr>,
              GoroutineDone [GET ''u'' 8] (Inr segment_without_seq),
              ReadReturned \<lparr>returned = Inr segment_without_seq, requests = [],
                            started = True\<rparr>,
              GoroutineDone [GET ''u'' (- 97)] (Inr (segment ''9''))],
             \<lparr>sub = \<lparr>url = ''u'', pendingGet = Some (segment ''9''), idx = 10,
                      preconnectErrorCount = 0\<rparr>,
                waiting = 0\<rparr>)
   \<and> \<not> (7 :: go_int) <s - 97
   \<and> run [CallRead (answer (segment ''9223372036854775807'')),
          RunGoroutine (answer (segment ''0''))] (start ''u'')
     = Some ([ReadReturned \<lparr>returned = Inr (segment ''9223372036854775807''),
                            requests = [GET ''u'' (- 1)], started = True\<rparr>,
              GoroutineDone [GET ''u'' (- 9223372036854775808)] (Inr (segment ''0''))],
             \<lparr>sub = \<lparr>url = ''u'', pendingGet = Some (segment ''0''), idx = 1,
                      preconnectErrorCount = 0\<rparr>,
                waiting = 0\<rparr>)
   \<and> \<not> (9223372036854775807 :: go_int) <s - 9223372036854775808"
  by (simp add: evaluate)

subsection \<open>The index after a numbered segment\<close>

lemma quiet_step:
  assumes "step e s = Some (ob, s')" and "issued ob = []"
    and "\<forall>X. pendingGet (sub s) = Some X \<longrightarrow> IsEOS X \<or> use_next_index X (sub s) = sub s"
  shows "sub s' = sub s"
proof (cases e)
  case (CallRead atts)
  with assms(1) obtain eff c' where rd: "Read atts (sub s) = Some (eff, c')"
    and ob: "ob = ReadReturned eff" and s': "sub s' = c'"
    by (auto split: option.splits)
  have "requests eff = []" using assms(2) ob by simp
  then show ?thesis
    using Read_cases [OF rd] assms(3) s' preconnect_requests_nonempty
    by (auto simp: Read_conn_def split: if_splits)
next
  case (RunGoroutine atts)
  with assms(1) obtain rs res c' where rd: "Read_goroutine atts (sub s) = Some ((rs, res), c')"
    and ob: "ob = GoroutineDone rs res"
    by (auto split: option.splits if_splits)
  have "rs = []" using assms(2) ob by simp
  then show ?thesis
    using Read_goroutine_cases [OF rd] preconnect_requests_nonempty by auto
qed

lemma first_request:
  assumes "run es s = Some (obs, s')"
    and "\<forall>X. pendingGet (sub s) = Some X \<longrightarrow> IsEOS X \<or> use_next_index X (sub s) = sub s"
    and "concat (map issued obs) \<noteq> []"
  shows "hd (concat (map issued obs)) = connect_request (sub s)"
  using assms
proof (induction es arbitrary: s obs)
  case Nil
  then show ?case by simp
next
  case (Cons e es)
  from Cons.prems(1) obtain ob s1 obs1 where st: "step e s = Some (ob, s1)"
    and rn: "run es s1 = Some (obs1, s')" and obs: "obs = ob # obs1"
    by (auto split: option.splits prod.splits)
  show ?case
  proof (cases "issued ob = []")
    case True
    have same: "sub s1 = sub s" using st True Cons.prems(2) by (rule quiet_step)
    have "hd (concat (map issued obs1)) = connect_request (sub s1)"
      using rn Cons.prems(2,3) same obs True by (intro Cons.IH) simp_all
    then show ?thesis using same obs True by simp
  next
    case False
    then have "hd (issued ob) \<in> set (issued ob)" by simp
    then have "hd (issued ob) = connect_request (sub s)" using step_issued [OF st] by blast
    then show ?thesis using obs False by simp
  qed
qed

text \<open>
  Claim C8. A call of \<^verbatim>\<open>Read\<close> that returns a connection whose header carries the
  sequence number \<open>v\<close>, other than \<open>- 1\<close>, leaves \<^verbatim>\<open>idx\<close> at \<open>v + 1\<close> and starts the
  goroutine. The sum is that of Go's \<^verbatim>\<open>int\<close>; it is the integer \<open>v + 1\<close> unless \<open>v\<close> is
  the largest \<^verbatim>\<open>int\<close>. Whatever follows, calls of \<^verbatim>\<open>Read\<close> and runs of goroutines in
  any order, the first request made after this call is for index \<open>v + 1\<close> at the
  subscriber's URL.
\<close>

theorem Read_advances_index:
  assumes "Read atts c = Some (eff, c')"
    and "returned eff = Inr conn"
    and "seq_of conn = Some v"
    and "v \<noteq> - 1"
  shows "idx c' = v + 1
         \<and> started eff
         \<and> (v \<noteq> 9223372036854775807 \<longrightarrow> sint (idx c') = sint v + 1)
         \<and> (\<forall>es n obs s'. run es \<lparr>sub = c', waiting = n\<rparr> = Some (obs, s')
                  \<and> concat (map issued obs) \<noteq> []
                \<longrightarrow> hd (concat (map issued obs)) = GET (url c) (v + 1))"
proof -
  from Read_stream [OF assms(1,2)]
  obtain c0 where c': "c' = use_next_index conn c0" and st: "started eff"
    and pend: "pendingGet c0 = None \<or> pendingGet c0 = Some conn" and u: "url c0 = url c"
  proof -
    assume r: "\<And>c0. c' = use_next_index conn c0 \<Longrightarrow> started eff \<Longrightarrow>
                 pendingGet c0 = None \<or> pendingGet c0 = Some conn \<Longrightarrow> url c0 = url c \<Longrightarrow> thesis"
    assume s: "started eff \<and> \<not> IsEOS conn
         \<and> (pendingGet c = Some conn \<and> c' = use_next_index conn c
            \<or> pendingGet c = None \<and> c' = use_next_index conn (c\<lparr>preconnectErrorCount := 0\<rparr>))"
    show thesis
    proof (cases "pendingGet c = Some conn")
      case True
      then show ?thesis using r [of c] s by simp
    next
      case False
      then show ?thesis using r [of "c\<lparr>preconnectErrorCount := 0\<rparr>"] s by simp
    qed
  qed
  have i: "idx c' = v + 1" using c' assms(3,4) by (simp add: use_next_index_idx)
  have q: "\<forall>X. pendingGet c' = Some X \<longrightarrow> IsEOS X \<or> use_next_index X c' = c'"
    using c' pend by (rule use_next_index_settled)
  have rq: "connect_request c' = GET (url c) (v + 1)"
    using i u c' by (simp add: connect_request_def)
  have f: "\<forall>es n obs s'. run es \<lparr>sub = c', waiting = n\<rparr> = Some (obs, s')
                  \<and> concat (map issued obs) \<noteq> []
                \<longrightarrow> hd (concat (map issued obs)) = GET (url c) (v + 1)"
  proof (intro allI impI)
    fix es n obs s'
    assume a: "run es \<lparr>sub = c', waiting = n\<rparr> = Some (obs, s')
                 \<and> concat (map issued obs) \<noteq> []"
    let ?s = "\<lparr>sub = c', waiting = n\<rparr>"
    have a1: "run es ?s = Some (obs, s')" using a by simp
    have a2: "\<forall>X. pendingGet (sub ?s) = Some X \<longrightarrow> IsEOS X \<or> use_next_index X (sub ?s) = sub ?s"
      using q by simp
    have a3: "concat (map issued obs) \<noteq> []" using a by simp
    have "hd (concat (map issued obs)) = connect_request (sub ?s)"
      using a1 a2 a3 by (rule first_request)
    then show "hd (concat (map issued obs)) = GET (url c) (v + 1)" using rq by simp
  qed
  have g: "v \<noteq> 9223372036854775807 \<longrightarrow> sint (idx c') = sint v + 1"
    using i sint_succ [OF sint_below_max, of v] by simp
  show ?thesis using i st g f by blast
qed

text \<open>A segment numbered 7: \<^verbatim>\<open>idx\<close> becomes 8 and the goroutine asks for index 8.\<close>

theorem Read_advances_index_witness:
  "Read (answer (segment ''7'')) (NewTrickleSubscriber ''u'')
     = Some (\<lparr>returned = Inr (segment ''7''), requests = [GET ''u'' (- 1)], started = True\<rparr>,
             \<lparr>url = ''u'', pendingGet = None, idx = 8, preconnectErrorCount = 0\<rparr>)
   \<and> seq_of (segment ''7'') = Some 7
   \<and> (7 :: go_int) \<noteq> - 1
   \<and> idx \<lparr>url = ''u'', pendingGet = None, idx = 8, preconnectErrorCount = 0\<rparr> = 7 + 1
   \<and> run [RunGoroutine (answer (segment ''8''))]
         \<lparr>sub = \<lparr>url = ''u'', pendingGet = None, idx = 8, preconnectErrorCount = 0\<rparr>,
            waiting = 1\<rparr>
     = Some ([GoroutineDone [GET ''u'' 8] (Inr (segment ''8''))],
             \<lparr>sub = \<lparr>url = ''u'', pendingGet = Some (segment ''8''), idx = 9,
                      preconnectErrorCount = 0\<rparr>,
                waiting = 0\<rparr>)
   \<and> hd (concat (map issued [GoroutineDone [GET ''u'' 8] (Inr (segment ''8''))]))
     = GET (url (NewTrickleSubscriber ''u'')) (7 + 1)"
proof (intro conjI)
  let ?eff = "\<lparr>returned = Inr (segment ''7''), requests = [GET ''u'' (- 1)], started = True\<rparr>"
  let ?c' = "\<lparr>url = ''u'', pendingGet = None, idx = 8, preconnectErrorCount = 0\<rparr>"
  let ?obs = "[GoroutineDone [GET ''u'' 8] (Inr (segment ''8''))]"
  let ?s' = "\<lparr>sub = \<lparr>url = ''u'', pendingGet = Some (segment ''8''), idx = 9,
                      preconnectErrorCount = 0\<rparr>,
               waiting = 0\<rparr>"
  show h1: "Read (answer (segment ''7'')) (NewTrickleSubscriber ''u'') = Some (?eff, ?c')"
    by (simp add: evaluate)
  have h2: "returned ?eff = Inr (segment ''7'')" by simp
  show h3: "seq_of (segment ''7'') = Some 7" by (simp add: evaluate)
  show h4: "(7 :: go_int) \<noteq> - 1" by simp
  note inst = Read_advances_index [OF h1 h2 h3 h4]
  show "idx ?c' = 7 + 1" using inst by blast
  show r: "run [RunGoroutine (answer (segment ''8''))] \<lparr>sub = ?c', waiting = 1\<rparr> = Some (?obs, ?s')"
    by (simp add: evaluate)
  have ne: "concat (map issued ?obs) \<noteq> []" by simp
  show "hd (concat (map issued ?obs)) = GET (url (NewTrickleSubscriber ''u'')) (7 + 1)"
    using inst r ne by blast
qed

subsection \<open>The pending connection\<close>

text \<open>
  Claim C1 fails on the code. \<^verbatim>\<open>Read\<close> never clears \<^verbatim>\<open>pendingGet\<close>. In this
  execution the second call returns the connection the goroutine has stored (segment 6);
  the goroutine that call starts fails to connect and leaves \<^verbatim>\<open>pendingGet\<close> as it is; the
  third call returns the same connection again, with no request made for it.
\<close>

theorem pending_connection_returned_twice:
  "run [CallRead (answer (segment ''5'')),
        RunGoroutine (answer (segment ''6'')),
        CallRead [],
        RunGoroutine refused,
        CallRead []] (start ''u'')
     = Some ([ReadReturned \<lparr>returned = Inr (segment ''5''), requests = [GET ''u'' (- 1)],
                            started = True\<rparr>,
              GoroutineDone [GET ''u'' 6] (Inr (segment ''6'')),
              ReadReturned \<lparr>returned = Inr (segment ''6''), requests = [], started = True\<rparr>,
              GoroutineDone [GET ''u'' 7] (Inl (GetFailed ''connection refused'')),
              ReadReturned \<lparr>returned = Inr (segment ''6''), requests = [], started = True\<rparr>],
             \<lparr>sub = \<lparr>url = ''u'', pendingGet = Some (segment ''6''), idx = 7,
                      preconnectErrorCount = 1\<rparr>,
                waiting = 1\<rparr>)"
  by (simp add: evaluate)

lemma run_closed_pending:
  assumes "pendingGet c = Some conn" and "IsEOS conn" and "\<not> 5 <s preconnectErrorCount c"
    and "run es \<lparr>sub = c, waiting = 0\<rparr> = Some (obs, s')"
  shows "s' = \<lparr>sub = c, waiting = 0\<rparr>
         \<and> obs = replicate (length es)
                  (ReadReturned \<lparr>returned = Inl EOS, requests = [], started = False\<rparr>)"
  using assms(4)
proof (induction es arbitrary: obs)
  case Nil
  then show ?case by simp
next
  case (Cons e es)
  have rd: "\<And>atts. Read atts c =
              Some (\<lparr>returned = Inl EOS, requests = [], started = False\<rparr>, c)"
    using assms(1-3) by (simp add: Read_def Read_conn_def)
  show ?case
  proof (cases e)
    case (CallRead atts)
    then show ?thesis using Cons rd by (auto split: option.splits prod.splits)
  next
    case (RunGoroutine atts)
    then show ?thesis using Cons.prems by simp
  qed
qed

lemma reads_closed_pending:
  assumes "pendingGet c = Some conn" and "IsEOS conn" and "\<not> 5 <s preconnectErrorCount c"
  shows "run (map CallRead attss) \<lparr>sub = c, waiting = 0\<rparr> =
           Some (replicate (length attss)
                   (ReadReturned \<lparr>returned = Inl EOS, requests = [], started = False\<rparr>),
                 \<lparr>sub = c, waiting = 0\<rparr>)"
  using assms by (induction attss) (simp_all add: Read_def Read_conn_def)

text \<open>
  Claim C10, as amended. When the pending connection signals the end of the stream (and
  the counter does not exceed 5), \<^verbatim>\<open>Read\<close> returns \<^verbatim>\<open>(nil, EOS)\<close>, makes no request,
  starts no goroutine and changes no field: the pending connection stays. If no goroutine
  started by an earlier call is still to run, calls of \<^verbatim>\<open>Read\<close> are all that can follow;
  any number of them return (second part), and in every execution that follows every
  call returns \<^verbatim>\<open>EOS\<close> with no request and leaves everything as it was (third part).
\<close>

theorem closed_pending_stays:
  assumes "pendingGet c = Some conn" and "IsEOS conn" and "\<not> 5 <s preconnectErrorCount c"
  shows "Read atts c = Some (\<lparr>returned = Inl EOS, requests = [], started = False\<rparr>, c)
         \<and> run (map CallRead attss) \<lparr>sub = c, waiting = 0\<rparr> =
             Some (replicate (length attss)
                     (ReadReturned \<lparr>returned = Inl EOS, requests = [], started = False\<rparr>),
                   \<lparr>sub = c, waiting = 0\<rparr>)
         \<and> (\<forall>es obs s'. run es \<lparr>sub = c, waiting = 0\<rparr> = Some (obs, s') \<longrightarrow>
               s' = \<lparr>sub = c, waiting = 0\<rparr>
               \<and> obs = replicate (length es)
                        (ReadReturned \<lparr>returned = Inl EOS, requests = [], started = False\<rparr>))"
proof -
  have "Read atts c = Some (\<lparr>returned = Inl EOS, requests = [], started = False\<rparr>, c)"
    using assms by (simp add: Read_def Read_conn_def)
  then show ?thesis
    using reads_closed_pending [OF assms] run_closed_pending [OF assms] by blast
qed

text \<open>Two more calls on a subscriber whose pending connection is closed.\<close>

theorem closed_pending_stays_witness:
  "pendingGet \<lparr>url = ''u'', pendingGet = Some closed_segment, idx = 9, preconnectErrorCount = 0\<rparr>
     = Some closed_segment
   \<and> IsEOS closed_segment
   \<and> \<not> 5 <s preconnectErrorCount
               \<lparr>url = ''u'', pendingGet = Some closed_segment, idx = 9, preconnectErrorCount = 0\<rparr>
   \<and> run (map CallRead [[], refused])
         \<lparr>sub = \<lparr>url = ''u'', pendingGet = Some closed_segment, idx = 9,
                  preconnectErrorCount = 0\<rparr>, waiting = 0\<rparr>
     = Some (replicate (length [[], refused])
               (ReadReturned \<lparr>returned = Inl EOS, requests = [], started = False\<rparr>),
             \<lparr>sub = \<lparr>url = ''u'', pendingGet = Some closed_segment, idx = 9,
                      preconnectErrorCount = 0\<rparr>, waiting = 0\<rparr>)"
proof (intro conjI)
  let ?c = "\<lparr>url = ''u'', pendingGet = Some closed_segment, idx = 9, preconnectErrorCount = 0\<rparr>"
  show h1: "pendingGet ?c = Some closed_segment" by simp
  show h2: "IsEOS closed_segment" by (simp add: evaluate)
  show h3: "\<not> 5 <s preconnectErrorCount ?c" by (simp add: word_sless_alt)
  show "run (map CallRead [[], refused]) \<lparr>sub = ?c, waiting = 0\<rparr>
     = Some (replicate (length [[], refused])
               (ReadReturned \<lparr>returned = Inl EOS, requests = [], started = False\<rparr>),
             \<lparr>sub = ?c, waiting = 0\<rparr>)"
    using closed_pending_stays [OF h1 h2 h3] by blast
qed

text \<open>
  The claim as it was stated fails when a goroutine of an earlier call is still to run.
  Here \<^verbatim>\<open>Read\<close> is called twice before the first of the two goroutines runs. That
  goroutine stores a closed segment, and the next call returns \<^verbatim>\<open>EOS\<close>. Then the second
  goroutine runs, makes a request and stores segment 9, and the call after it returns
  that segment, not \<^verbatim>\<open>EOS\<close>.
\<close>

theorem stream_after_end_of_stream:
  "run [CallRead (answer (segment ''5'')),
        RunGoroutine (answer (segment ''6'')),
        CallRead [],
        CallRead [],
        RunGoroutine (answer closed_segment),
        CallRead [],
        RunGoroutine (answer (segment ''9'')),
        CallRead []] (start ''u'')
     = Some ([ReadReturned \<lparr>returned = Inr (segment ''5''), requests = [GET ''u'' (- 1)],
                            started = True\<rparr>,
              GoroutineDone [GET ''u'' 6] (Inr (segment ''6'')),
              ReadReturned \<lparr>returned = Inr (segment ''6''), requests = [], started = True\<rparr>,
              ReadReturned \<lparr>returned = Inr (segment ''6''), requests = [], started = True\<rparr>,
              GoroutineDone [GET ''u'' 7] (Inr closed_segment),
              ReadReturned \<lparr>returned = Inl EOS, requests = [], started = False\<rparr>,
              GoroutineDone [GET ''u'' 9] (Inr (segment ''9'')),
              ReadReturned \<lparr>returned = Inr (segment ''9''), requests = [], started = True\<rparr>],
             \<lparr>sub = \<lparr>url = ''u'', pendingGet = Some (segment ''9''), idx = 10,
                      preconnectErrorCount = 0\<rparr>,
                waiting = 1\<rparr>)"
  by (simp add: evaluate)

section \<open>Facts about the switchable segment reader\<close>

subsection \<open>Close\<close>

lemma reads_EOSReader: "reads EOSReader ps = replicate (length ps) ([], Some EOF)"
  by (induction ps) simp_all

lemma exec_Close:
  assumes "\<not> writer (mu s)"
  shows "exec_code Close (s, w) = Some (s, reader s EOSReader w)"
  using assms by (simp add: Close_def)

text \<open>
  Claim C7. \<^verbatim>\<open>Close\<close>, run from its first instruction to its last on a reader that is
  not write-locked, calls the handler that is in the field \<^verbatim>\<open>reader\<close> with
  \<^verbatim>\<open>EOSReader\<close> and leaves the reader, its lock and its handler, as it was. Every read of
  \<^verbatim>\<open>EOSReader\<close>, whatever the buffer and however many reads came before, returns no byte
  and \<^verbatim>\<open>io.EOF\<close>.
\<close>

theorem Close_feeds_end_of_stream:
  assumes "\<not> writer (mu s)"
  shows "exec_code Close (s, w) = Some (s, reader s EOSReader w)
         \<and> reads EOSReader ps = replicate (length ps) ([], Some EOF)
         \<and> io_Read EOSReader n = (([], Some EOF), EOSReader)"
  using assms by (simp add: exec_Close reads_EOSReader)

text \<open>
  On a new reader: \<^verbatim>\<open>Close\<close> hands \<^verbatim>\<open>EOSReader\<close> to \<^verbatim>\<open>NoopReader\<close>, whose goroutine
  copies nothing and ends.
\<close>

theorem Close_feeds_end_of_stream_witness:
  "\<not> writer (mu NewSwitchableSegmentReader)
   \<and> exec_code Close (NewSwitchableSegmentReader, [])
       = Some (NewSwitchableSegmentReader, [EOSReader])
   \<and> reads EOSReader [512, 0, 32768] = [([], Some EOF), ([], Some EOF), ([], Some EOF)]
   \<and> Copy_Discard EOSReader 0 = Some (0, None)"
proof (intro conjI)
  show h: "\<not> writer (mu NewSwitchableSegmentReader)"
    by (simp add: NewSwitchableSegmentReader_def)
  show "exec_code Close (NewSwitchableSegmentReader, []) = Some (NewSwitchableSegmentReader, [EOSReader])"
    using Close_feeds_end_of_stream [OF h, of "[]"]
    by (simp add: NewSwitchableSegmentReader_def NoopReader_def)
  show "reads EOSReader [512, 0, 32768] = [([], Some EOF), ([], Some EOF), ([], Some EOF)]"
    using Close_feeds_end_of_stream [OF h, of "[]" "[512, 0, 32768]"] by simp
  show "Copy_Discard EOSReader 0 = Some (0, None)"
    by (simp add: Copy_Discard.simps)
qed

subsection \<open>The lock\<close>

lemma count_update:
  "i < length ts \<Longrightarrow>
   length (filter P (ts[i := t])) + (if P (ts ! i) then 1 else 0)
     = length (filter P ts) + (if P t then 1 else 0)"
proof (induction ts arbitrary: i)
  case Nil
  then show ?case by simp
next
  case (Cons a ts)
  then show ?case by (cases i) auto
qed

lemma count_positive: "j < length ts \<Longrightarrow> P (ts ! j) \<Longrightarrow> 0 < length (filter P ts)"
  by (auto simp: filter_empty_conv)

lemma code_suffix:
  assumes "drop k (code_of c) = ins # rest"
  shows "rest = drop (Suc k) (code_of c) \<and> k < 3
         \<and> (ins = Lock \<longrightarrow> \<not> in_write_section (ins # rest) \<and> \<not> in_read_section (ins # rest)
                          \<and> in_write_section rest \<and> \<not> in_read_section rest)
         \<and> (ins = RLock \<longrightarrow> \<not> in_write_section (ins # rest) \<and> \<not> in_read_section (ins # rest)
                          \<and> \<not> in_write_section rest \<and> in_read_section rest)
         \<and> (ins = Unlock \<longrightarrow> in_write_section (ins # rest) \<and> \<not> in_read_section (ins # rest)
                          \<and> \<not> in_write_section rest \<and> \<not> in_read_section rest)
         \<and> (ins = RUnlock \<longrightarrow> \<not> in_write_section (ins # rest) \<and> in_read_section (ins # rest)
                          \<and> \<not> in_write_section rest \<and> \<not> in_read_section rest)
         \<and> (\<forall>h. ins = Assign_reader h \<longrightarrow> in_write_section (ins # rest) \<and> \<not> in_read_section (ins # rest)
                          \<and> in_write_section rest \<and> \<not> in_read_section rest)
         \<and> (\<forall>r. ins = Call_reader r \<longrightarrow> \<not> in_write_section (ins # rest) \<and> in_read_section (ins # rest)
                          \<and> \<not> in_write_section rest \<and> in_read_section rest)"
proof -
  have k: "k < 3"
  proof (rule ccontr)
    assume "\<not> k < 3"
    then have "drop k (code_of c) = []"
      by (cases c) (simp_all add: SwitchReader_def Read_segment_def Close_def)
    then show False using assms by simp
  qed
  then have "k = 0 \<or> k = 1 \<or> k = 2" by arith
  then show ?thesis using assms k
    by (cases c) (auto simp: SwitchReader_def Read_segment_def Close_def)
qed

lemma step_thread_cases:
  assumes "step_thread i p = Some p'"
  obtains ins rest s' w' where "i < length (threads p)" and "threads p ! i = ins # rest"
    and "exec_instr ins (shared p, world p) = Some (s', w')"
    and "p' = \<lparr>shared = s', world = w', threads = (threads p)[i := rest]\<rparr>"
  using assms
  by (auto simp: step_thread_def split: if_splits list.splits option.splits)

lemma step_thread_consistent:
  assumes "consistent cs p" and "step_thread i p = Some p'"
  shows "consistent cs p'"
proof -
  from assms(2) obtain ins rest s' w' where i: "i < length (threads p)"
    and t: "threads p ! i = ins # rest"
    and ex: "exec_instr ins (shared p, world p) = Some (s', w')"
    and p': "p' = \<lparr>shared = s', world = w', threads = (threads p)[i := rest]\<rparr>"
    by (rule step_thread_cases)
  have len: "length (threads p) = length cs"
    and suf: "\<forall>j<length cs. \<exists>k. threads p ! j = drop k (code_of (cs ! j))"
    and rd: "length (filter in_read_section (threads p)) = readers (mu (shared p))"
    and wr: "length (filter in_write_section (threads p)) = (if writer (mu (shared p)) then 1 else 0)"
    and ex0: "writer (mu (shared p)) \<longrightarrow> readers (mu (shared p)) = 0"
    using assms(1) by (simp_all add: consistent_def)
  from suf i len obtain k where k: "threads p ! i = drop k (code_of (cs ! i))" by auto
  then have d: "drop k (code_of (cs ! i)) = ins # rest" using t by simp
  note cs = code_suffix [OF d]
  have suf': "\<forall>j<length cs. \<exists>k. (threads p)[i := rest] ! j = drop k (code_of (cs ! j))"
  proof (intro allI impI)
    fix j
    assume j: "j < length cs"
    show "\<exists>k. (threads p)[i := rest] ! j = drop k (code_of (cs ! j))"
    proof (cases "j = i")
      case True
      then show ?thesis using cs i by auto
    next
      case False
      then show ?thesis using suf j by simp
    qed
  qed
  have cr: "length (filter in_read_section ((threads p)[i := rest]))
              + (if in_read_section (ins # rest) then 1 else 0)
            = readers (mu (shared p)) + (if in_read_section rest then 1 else 0)"
    using count_update [OF i, of in_read_section rest] t rd by simp
  have cw: "length (filter in_write_section ((threads p)[i := rest]))
              + (if in_write_section (ins # rest) then 1 else 0)
            = (if writer (mu (shared p)) then 1 else 0) + (if in_write_section rest then 1 else 0)"
    using count_update [OF i, of in_write_section rest] t wr by simp
  show ?thesis
  proof (cases ins)
    case Lock
    then show ?thesis using ex p' len suf' cr cw cs ex0
      by (auto simp: consistent_def split: if_splits)
  next
    case Unlock
    then show ?thesis using ex p' len suf' cr cw cs ex0
      by (auto simp: consistent_def split: if_splits)
  next
    case RLock
    then show ?thesis using ex p' len suf' cr cw cs ex0
      by (auto simp: consistent_def split: if_splits)
  next
    case RUnlock
    then show ?thesis using ex p' len suf' cr cw cs ex0
      by (auto simp: consistent_def split: if_splits)
  next
    case (Assign_reader h)
    then show ?thesis using ex p' len suf' cr cw cs ex0
      by (auto simp: consistent_def split: if_splits)
  next
    case (Call_reader r)
    then show ?thesis using ex p' len suf' cr cw cs ex0
      by (auto simp: consistent_def split: if_splits)
  qed
qed

lemma schedule_consistent:
  assumes "schedule is p = Some p'" and "consistent cs p"
  shows "consistent cs p'"
  using assms
proof (induction "is" arbitrary: p)
  case Nil
  then show ?case by simp
next
  case (Cons i "is")
  then show ?case
    by (auto split: option.splits dest: step_thread_consistent)
qed

lemma calls_consistent:
  assumes "mu s = \<lparr>writer = False, readers = 0\<rparr>"
  shows "consistent cs (calls s w cs)"
proof -
  have "\<And>c :: 'a call. \<not> in_read_section (code_of c) \<and> \<not> in_write_section (code_of c)"
  proof -
    fix c :: "'a call"
    show "\<not> in_read_section (code_of c) \<and> \<not> in_write_section (code_of c)"
      by (cases c) (simp_all add: SwitchReader_def Read_segment_def Close_def)
  qed
  then have "filter in_read_section (map code_of cs) = []"
    and "filter in_write_section (map code_of cs) = []"
    by (simp_all add: filter_empty_conv)
  moreover have "\<forall>i<length cs. \<exists>k. map code_of cs ! i = drop k (code_of (cs ! i))"
  proof (intro allI impI)
    fix i assume "i < length cs"
    then have "map code_of cs ! i = drop 0 (code_of (cs ! i))" by simp
    then show "\<exists>k. map code_of cs ! i = drop k (code_of (cs ! i))" by blast
  qed
  ultimately show ?thesis using assms by (simp add: consistent_def calls_def)
qed

lemma consistent_exclusion:
  assumes "consistent cs p" and "i < length (threads p)" and "j < length (threads p)"
    and "i \<noteq> j" and "in_write_section (threads p ! i)"
  shows "\<not> in_read_section (threads p ! j) \<and> \<not> in_write_section (threads p ! j)"
proof -
  have rd: "length (filter in_read_section (threads p)) = readers (mu (shared p))"
    and wr: "length (filter in_write_section (threads p)) = (if writer (mu (shared p)) then 1 else 0)"
    and ex0: "writer (mu (shared p)) \<longrightarrow> readers (mu (shared p)) = 0"
    using assms(1) by (simp_all add: consistent_def)
  have "0 < length (filter in_write_section (threads p))"
    using assms(2,5) by (rule count_positive)
  then have w: "writer (mu (shared p))" and one: "length (filter in_write_section (threads p)) = 1"
    using wr by (auto split: if_splits)
  have "\<not> in_read_section (threads p ! j)"
  proof
    assume "in_read_section (threads p ! j)"
    then have "0 < length (filter in_read_section (threads p))"
      using assms(3) count_positive by blast
    then show False using rd ex0 w by simp
  qed
  moreover have "\<not> in_write_section (threads p ! j)"
  proof
    assume a: "in_write_section (threads p ! j)"
    let ?ts = "(threads p)[i := []]"
    have "length (filter in_write_section ?ts) + 1 = length (filter in_write_section (threads p))"
      using count_update [OF assms(2), of in_write_section "[]"] assms(5) by simp
    then have z: "length (filter in_write_section ?ts) = 0" using one by simp
    have "j < length ?ts" and "in_write_section (?ts ! j)" using assms(3,4) a by simp_all
    then have "0 < length (filter in_write_section ?ts)" by (rule count_positive)
    then show False using z by simp
  qed
  ultimately show ?thesis by simp
qed

lemma assign_from_call:
  assumes "drop k (code_of c) = Assign_reader h # rest"
  shows "c = Call_SwitchReader h"
proof -
  have "k < 3" using code_suffix [OF assms] by simp
  then have "k = 0 \<or> k = 1 \<or> k = 2" by arith
  then show ?thesis using assms
    by (cases c) (auto simp: SwitchReader_def Read_segment_def Close_def)
qed

lemma step_thread_reader:
  assumes "consistent cs p" and "step_thread i p = Some p'"
  shows "reader (shared p') = reader (shared p)
         \<or> (\<exists>h. Call_SwitchReader h \<in> set cs \<and> reader (shared p') = h)"
proof -
  from assms(2) obtain ins rest s' w' where i: "i < length (threads p)"
    and t: "threads p ! i = ins # rest"
    and ex: "exec_instr ins (shared p, world p) = Some (s', w')"
    and p': "p' = \<lparr>shared = s', world = w', threads = (threads p)[i := rest]\<rparr>"
    by (rule step_thread_cases)
  have len: "length (threads p) = length cs"
    and suf: "\<forall>j<length cs. \<exists>k. threads p ! j = drop k (code_of (cs ! j))"
    using assms(1) by (simp_all add: consistent_def)
  from suf i len obtain k where k: "threads p ! i = drop k (code_of (cs ! i))" by auto
  show ?thesis
  proof (cases ins)
    case (Assign_reader h)
    then have "cs ! i = Call_SwitchReader h" using k t assign_from_call [of k "cs ! i" h rest] by simp
    then have "Call_SwitchReader h \<in> set cs" using i len nth_mem [of i cs] by simp
    then show ?thesis using Assign_reader ex p' by auto
  qed (use ex p' in \<open>auto split: if_splits\<close>)
qed

lemma schedule_reader:
  assumes "schedule is p = Some p'" and "consistent cs p"
  shows "reader (shared p') = reader (shared p)
         \<or> (\<exists>h. Call_SwitchReader h \<in> set cs \<and> reader (shared p') = h)"
  using assms
proof (induction "is" arbitrary: p)
  case Nil
  then show ?case by simp
next
  case (Cons i "is")
  from Cons.prems(1) obtain p1 where s1: "step_thread i p = Some p1"
    and s2: "schedule is p1 = Some p'"
    by (auto split: option.splits)
  have c1: "consistent cs p1" using Cons.prems(2) s1 by (rule step_thread_consistent)
  from Cons.IH [OF s2 c1] step_thread_reader [OF Cons.prems(2) s1]
  show ?case by auto
qed

text \<open>
  Claim C6, as amended. \<^verbatim>\<open>Read\<close> (the dispatch) and \<^verbatim>\<open>Close\<close> take the lock with
  \<^verbatim>\<open>RLock\<close>, in shared mode; only \<^verbatim>\<open>SwitchReader\<close>, the one method that assigns the
  handler, takes it with \<^verbatim>\<open>Lock\<close>. Start any calls of the three methods on a reader whose
  lock is free and let their instructions interleave in any order. Whenever a goroutine is
  inside the locked section of \<^verbatim>\<open>SwitchReader\<close>, no other goroutine is inside the locked
  section of \<^verbatim>\<open>Read\<close>, \<^verbatim>\<open>Close\<close> or \<^verbatim>\<open>SwitchReader\<close>: no handler is called while one
  is assigned. The handler in the field is always the first one or one given to a call
  of \<^verbatim>\<open>SwitchReader\<close>.
\<close>

theorem write_lock_excludes_handler_calls:
  assumes "mu s = \<lparr>writer = False, readers = 0\<rparr>"
    and "schedule is (calls s w cs) = Some p"
    and "i < length (threads p)" and "j < length (threads p)" and "i \<noteq> j"
    and "in_write_section (threads p ! i)"
  shows "acquires (Read_segment r :: 'w instr list) = Some Shared_mode
         \<and> acquires (Close :: 'w instr list) = Some Shared_mode
         \<and> acquires (SwitchReader h :: 'w instr list) = Some Exclusive_mode
         \<and> \<not> in_read_section (threads p ! j)
         \<and> \<not> in_write_section (threads p ! j)
         \<and> (reader (shared p) = reader s
              \<or> (\<exists>h'. Call_SwitchReader h' \<in> set cs \<and> reader (shared p) = h'))"
proof -
  have c0: "consistent cs (calls s w cs)" using assms(1) by (rule calls_consistent)
  have c: "consistent cs p" using assms(2) c0 by (rule schedule_consistent)
  have "\<not> in_read_section (threads p ! j) \<and> \<not> in_write_section (threads p ! j)"
    using c assms(3-6) by (rule consistent_exclusion)
  moreover have "reader (shared p) = reader s
              \<or> (\<exists>h'. Call_SwitchReader h' \<in> set cs \<and> reader (shared p) = h')"
    using schedule_reader [OF assms(2) c0] by (simp add: calls_def)
  ultimately show ?thesis
    by (simp add: Read_segment_def Close_def SwitchReader_def)
qed

text \<open>
  A call of \<^verbatim>\<open>SwitchReader\<close> that holds the lock keeps a call of \<^verbatim>\<open>Close\<close> waiting at
  its \<^verbatim>\<open>RLock\<close>.
\<close>

theorem write_lock_excludes_handler_calls_witness:
  "mu NewSwitchableSegmentReader = \<lparr>writer = False, readers = 0\<rparr>
   \<and> schedule [0] (calls NewSwitchableSegmentReader []
                      [Call_SwitchReader NoopReader, Call_Close, Call_Read EOSReader])
       = Some \<lparr>shared = \<lparr>mu = \<lparr>writer = True, readers = 0\<rparr>, reader = NoopReader\<rparr>,
               world = [],
               threads = [[Assign_reader NoopReader, Unlock], Close, Read_segment EOSReader]\<rparr>
   \<and> in_write_section [Assign_reader NoopReader, Unlock :: (io_Reader list) instr]
   \<and> \<not> in_read_section (Close :: (io_Reader list) instr list)
   \<and> acquires (Close :: (io_Reader list) instr list) = Some Shared_mode
   \<and> schedule [0, 1] (calls NewSwitchableSegmentReader []
                         [Call_SwitchReader NoopReader, Call_Close, Call_Read EOSReader])
       = None"
proof (intro conjI)
  let ?cs = "[Call_SwitchReader NoopReader, Call_Close, Call_Read EOSReader]"
  let ?p = "\<lparr>shared = \<lparr>mu = \<lparr>writer = True, readers = 0\<rparr>, reader = NoopReader\<rparr>,
              world = [],
              threads = [[Assign_reader NoopReader, Unlock], Close, Read_segment EOSReader]\<rparr>"
  show h1: "mu NewSwitchableSegmentReader = \<lparr>writer = False, readers = 0\<rparr>"
    by (simp add: NewSwitchableSegmentReader_def)
  show h2: "schedule [0] (calls NewSwitchableSegmentReader [] ?cs) = Some ?p"
    by (simp add: calls_def step_thread_def NewSwitchableSegmentReader_def SwitchReader_def)
  have h3: "0 < length (threads ?p)" by simp
  have h4: "1 < length (threads ?p)" by simp
  have h5: "(0::nat) \<noteq> 1" by simp
  have h6: "in_write_section (threads ?p ! 0)" by simp
  show "in_write_section [Assign_reader NoopReader, Unlock :: (io_Reader list) instr]" by simp
  note inst = write_lock_excludes_handler_calls [OF h1 h2 h3 h4 h5 h6, where r = EOSReader and h = NoopReader]
  show "\<not> in_read_section (Close :: (io_Reader list) instr list)"
    using inst by simp
  show "acquires (Close :: (io_Reader list) instr list) = Some Shared_mode"
    using inst by simp
  show "schedule [0, 1] (calls NewSwitchableSegmentReader [] ?cs) = None"
    by (simp add: calls_def step_thread_def NewSwitchableSegmentReader_def SwitchReader_def
        Close_def)
qed

text \<open>
  The claim as it was stated fails: \<^verbatim>\<open>Close\<close> takes the lock in shared mode, so a call
  of \<^verbatim>\<open>Close\<close> and a call of \<^verbatim>\<open>Read\<close> hold it at the same time.
\<close>

theorem Close_takes_read_lock:
  "acquires (Close :: (io_Reader list) instr list) = Some Shared_mode
   \<and> Shared_mode \<noteq> Exclusive_mode
   \<and> schedule [0, 1] (calls NewSwitchableSegmentReader [] [Call_Close, Call_Read EOSReader])
       = Some \<lparr>shared = \<lparr>mu = \<lparr>writer = False, readers = 2\<rparr>, reader = NoopReader\<rparr>,
               world = [],
               threads = [[Call_reader EOSReader, RUnlock], [Call_reader EOSReader, RUnlock]]\<rparr>"
  by (simp add: calls_def step_thread_def NewSwitchableSegmentReader_def Close_def
      Read_segment_def)

end
